theory Spec2Isabelle
  imports Main
begin

text \<open>
  A model of \<open>src/PredictedProcess.ts\<close> and of \<open>PredictedProcessesManager\<close>: the
  promise that \<open>run\<close> builds around a spawned child, the memoizing wrapper, and the
  registry of processes. Calls, child events and aborts are turns of the event loop; the
  state they act on is explicit.
\<close>

section \<open>Data model\<close>

text \<open>
  Object identities of the JavaScript heap are natural numbers: a child-process handle is
  its index in the list of spawned children, a promise its index in the list of promises,
  and an \<open>AbortSignal\<close> is named by a number. An optional signal argument is a
  \<open>sigref option\<close>, where \<open>None\<close> is the absent argument \<open>undefined\<close>.
\<close>

type_synonym handle = nat
type_synonym pref = nat
type_synonym sigref = nat

text \<open>
  The values a promise of \<open>run\<close> is rejected with: an \<open>Error\<close> object (by its message),
  or the \<open>signal\<close> argument of the \<open>exit\<close> event, which is a signal name or \<open>null\<close>.
\<close>

datatype reason = Error string | SignalName string | Null

datatype pstate = Pending | Fulfilled | Rejected reason

text \<open>The events a child handle emits, with the arguments the listeners receive.\<close>

datatype event =
    EvError string
  | EvExit "int option" "string option"
  | EvClose "int option"

datatype evname = OnError | OnExit | OnClose

text \<open>
  The three closures \<open>run\<close> registers on the child; each captures \<open>resolve\<close> and
  \<open>reject\<close> of the promise under construction.
\<close>

datatype callback = ErrorCb pref | ExitCb pref | CloseCb pref

text \<open>A microtask: the \<open>catch\<close> reaction of \<open>memoize\<close>, which deletes a cache key.\<close>

datatype job = CacheDelete "sigref option"

record ChildProcess =
  spawnfile :: string
  spawnargs :: "string list"
  listeners :: "(evname \<times> callback) list"
  kills :: nat

text \<open>
  A promise: its state, the \<open>catch\<close> reactions registered on it, and, for a promise
  that an \<open>async\<close> function returned by returning another promise, the promise it was
  resolved with. Such a promise takes the outcome of the other one.
\<close>

record promise =
  state :: pstate
  on_rejected :: "job list"
  resolved_with :: "pref option"

text \<open>
  The fields of class \<open>PredictedProcess\<close>: \<open>id\<close> (here \<open>pid\<close>, an integer),
  \<open>command\<close>, \<open>_childProcess\<close> and \<open>_cache\<close>. The cache is a \<open>Map\<close> keyed by
  the identity of the signal argument, \<open>undefined\<close> included.
\<close>

record PredictedProcess =
  pid :: int
  command :: string
  childProcess :: "handle option"
  cache :: "sigref option \<rightharpoonup> pref"

text \<open>
  The instance \<open>this\<close> together with the part of the heap its methods touch: the
  children spawned so far, the promises created so far, the \<open>aborted\<close> flag and the
  \<open>abort\<close> listeners of every signal, and the queue of pending microtasks.
\<close>

record world = PredictedProcess +
  children :: "ChildProcess list"
  promises :: "promise list"
  aborted :: "sigref \<Rightarrow> bool"
  abort_listeners :: "sigref \<Rightarrow> pref list"
  microtasks :: "job list"

text \<open>The field \<open>_processes\<close> of class \<open>PredictedProcessesManager\<close>.\<close>

record PredictedProcessesManager =
  processes :: "PredictedProcess list"

section \<open>Promises and microtasks\<close>

definition new_promise :: "pstate \<Rightarrow> world \<Rightarrow> pref \<times> world" where
  "new_promise v st =
     (length (promises st),
      st\<lparr>promises := promises st @ [\<lparr>state = v, on_rejected = [], resolved_with = None\<rparr>]\<rparr>)"

text \<open>
  Settling is effective once only; a rejection queues the \<open>catch\<close> reactions of the
  promise as microtasks.
\<close>

text \<open>
  What an \<open>async\<close> function returns when its body returns the promise \<open>p\<close>: a new
  promise, resolved with \<open>p\<close>.
\<close>

definition async_return :: "pref \<Rightarrow> world \<Rightarrow> pref \<times> world" where
  "async_return p st =
     (length (promises st),
      st\<lparr>promises := promises st @
           [\<lparr>state = Pending, on_rejected = [], resolved_with = Some p\<rparr>]\<rparr>)"

text \<open>
  The outcome a caller observes on a promise. The promises in the cache are those that
  \<open>run\<close> built, which only their listeners settle, so one step of indirection is all
  there is.
\<close>

definition outcome :: "world \<Rightarrow> pref \<Rightarrow> pstate" where
  "outcome st p =
     (case resolved_with (promises st ! p) of
        None \<Rightarrow> state (promises st ! p)
      | Some q \<Rightarrow> state (promises st ! q))"

definition settle :: "pref \<Rightarrow> pstate \<Rightarrow> world \<Rightarrow> world" where
  "settle p v st =
     (if p < length (promises st) \<and> state (promises st ! p) = Pending
      then st\<lparr>promises := (promises st)[p := (promises st ! p)\<lparr>state := v\<rparr>],
              microtasks := microtasks st @
                (case v of Rejected r \<Rightarrow> on_rejected (promises st ! p) | _ \<Rightarrow> [])\<rparr>
      else st)"

definition resolve :: "pref \<Rightarrow> world \<Rightarrow> world" where
  "resolve p st = settle p Fulfilled st"

definition reject :: "pref \<Rightarrow> reason \<Rightarrow> world \<Rightarrow> world" where
  "reject p r st = settle p (Rejected r) st"

text \<open>\<open>promise.catch(cb)\<close>: the reaction runs as a microtask once the promise is rejected.\<close>

definition promise_catch :: "pref \<Rightarrow> job \<Rightarrow> world \<Rightarrow> world" where
  "promise_catch p j st =
     (if p < length (promises st) then
        (case state (promises st ! p) of
           Pending \<Rightarrow>
             st\<lparr>promises := (promises st)[p := (promises st ! p)
                   \<lparr>on_rejected := on_rejected (promises st ! p) @ [j]\<rparr>]\<rparr>
         | Fulfilled \<Rightarrow> st
         | Rejected r \<Rightarrow> st\<lparr>microtasks := microtasks st @ [j]\<rparr>)
      else st)"

fun run_job :: "job \<Rightarrow> world \<Rightarrow> world" where
  "run_job (CacheDelete k) st = st\<lparr>cache := (cache st)(k := None)\<rparr>"

text \<open>The microtask checkpoint at the end of a turn of the event loop.\<close>

definition drain :: "world \<Rightarrow> world" where
  "drain st = fold run_job (microtasks st) (st\<lparr>microtasks := []\<rparr>)"

section \<open>The child handle\<close>

text \<open>\<open>String.prototype.split\<close> with a one-character separator.\<close>

primrec split :: "char \<Rightarrow> string \<Rightarrow> string list" where
  "split c [] = [[]]"
| "split c (x # xs) =
     (if x = c then [] # split c xs
      else (case split c xs of [] \<Rightarrow> [[x]] | t # ts \<Rightarrow> (x # t) # ts))"

text \<open>The array pattern \<open>[command, ...args]\<close>.\<close>

fun destructure :: "string list \<Rightarrow> string \<times> string list" where
  "destructure [] = ([], [])"
| "destructure (c # as) = (c, as)"

definition spawn :: "string \<Rightarrow> string list \<Rightarrow> world \<Rightarrow> handle \<times> world" where
  "spawn file args st =
     (length (children st),
      st\<lparr>children := children st @
           [\<lparr>spawnfile = file, spawnargs = args, listeners = [], kills = 0\<rparr>]\<rparr>)"

definition on :: "handle \<Rightarrow> evname \<Rightarrow> callback \<Rightarrow> world \<Rightarrow> world" where
  "on h n cb st =
     (if h < length (children st)
      then st\<lparr>children := (children st)[h := (children st ! h)
                \<lparr>listeners := listeners (children st ! h) @ [(n, cb)]\<rparr>]\<rparr>
      else st)"

definition removeAllListeners :: "handle \<Rightarrow> world \<Rightarrow> world" where
  "removeAllListeners h st =
     (if h < length (children st)
      then st\<lparr>children := (children st)[h := (children st ! h)\<lparr>listeners := []\<rparr>]\<rparr>
      else st)"

definition kill :: "handle \<Rightarrow> world \<Rightarrow> world" where
  "kill h st =
     (if h < length (children st)
      then st\<lparr>children := (children st)[h := (children st ! h)
                \<lparr>kills := Suc (kills (children st ! h))\<rparr>]\<rparr>
      else st)"

section \<open>PredictedProcess.run\<close>

text \<open>
  The closure \<open>cleanup\<close> reads the field \<open>this._childProcess\<close> when it is called, with
  optional chaining on both calls.
\<close>

definition cleanup :: "world \<Rightarrow> world" where
  "cleanup st =
     (case childProcess st of
        None \<Rightarrow> st
      | Some h \<Rightarrow> kill h (removeAllListeners h st))"

definition on_childProcess :: "evname \<Rightarrow> callback \<Rightarrow> world \<Rightarrow> world" where
  "on_childProcess n cb st =
     (case childProcess st of None \<Rightarrow> st | Some h \<Rightarrow> on h n cb st)"

definition addEventListener :: "sigref \<Rightarrow> pref \<Rightarrow> world \<Rightarrow> world" where
  "addEventListener s p st =
     st\<lparr>abort_listeners := (abort_listeners st)(s := abort_listeners st s @ [p])\<rparr>"

text \<open>\<open>signal?.aborted\<close>\<close>

definition signal_aborted :: "sigref option \<Rightarrow> world \<Rightarrow> bool" where
  "signal_aborted signal st = (case signal of None \<Rightarrow> False | Some s \<Rightarrow> aborted st s)"

text \<open>
  \<open>run\<close> is an \<open>async\<close> function: it always returns a promise, rejected at once where
  the body throws. Each call constructs one promise and returns one promise resolved with
  it; the two are identified here.
\<close>

definition run :: "sigref option \<Rightarrow> world \<Rightarrow> pref \<times> world" where
  "run signal st =
     (if signal_aborted signal st
      then new_promise (Rejected (Error ''Aborted before execution'')) st
      else
        (let (p, st1) = new_promise Pending st;
             (file, args) = destructure (split CHR '' '' (command st1));
             (h, st2) = spawn file args st1;
             st3 = st2\<lparr>childProcess := Some h\<rparr>;
             st4 = on_childProcess OnError (ErrorCb p) st3;
             st5 = on_childProcess OnExit (ExitCb p) st4;
             st6 = on_childProcess OnClose (CloseCb p) st5;
             st7 = (case signal of
                      None \<Rightarrow> st6
                    | Some s \<Rightarrow> addEventListener s p st6)
         in (p, st7)))"

text \<open>The bodies of the three listeners and of the \<open>abort\<close> listener.\<close>

fun invoke :: "callback \<Rightarrow> event \<Rightarrow> world \<Rightarrow> world" where
  "invoke (ErrorCb p) (EvError e) st = reject p (Error e) st"
| "invoke (ExitCb p) (EvExit code signal) st =
     (if code = Some 0 then resolve p (cleanup st)
      else reject p (case signal of None \<Rightarrow> Null | Some s \<Rightarrow> SignalName s) st)"
| "invoke (CloseCb p) (EvClose code) st =
     (if code = Some 0 then resolve p (cleanup st)
      else reject p (Error ''Process exited with code $ {code}'') st)"
| "invoke cb ev st = st"

definition abort_listener :: "pref \<Rightarrow> world \<Rightarrow> world" where
  "abort_listener p st = reject p (Error ''AbortSignal triggered'') (cleanup st)"

fun name_of :: "event \<Rightarrow> evname" where
  "name_of (EvError e) = OnError"
| "name_of (EvExit code signal) = OnExit"
| "name_of (EvClose code) = OnClose"

text \<open>
  \<open>EventEmitter.emit\<close>: the listeners registered for the event when it is emitted are
  called in order of registration, also those that an earlier one of them removes. An
  event for which no listener is registered changes nothing here.
\<close>

definition emit :: "handle \<Rightarrow> event \<Rightarrow> world \<Rightarrow> world" where
  "emit h ev st =
     (if h < length (children st)
      then fold (\<lambda>cb. invoke cb ev)
             (map snd (filter (\<lambda>l. fst l = name_of ev) (listeners (children st ! h)))) st
      else st)"

text \<open>One turn of the event loop in which child \<open>h\<close> emits \<open>ev\<close>.\<close>

definition child_event :: "handle \<Rightarrow> event \<Rightarrow> world \<Rightarrow> world" where
  "child_event h ev st = drain (emit h ev st)"

text \<open>
  \<open>AbortController.abort\<close>: sets the flag and fires the one-shot \<open>abort\<close> event;
  a second call does nothing.
\<close>

definition abort :: "sigref \<Rightarrow> world \<Rightarrow> world" where
  "abort s st =
     (if aborted st s then st
      else drain (fold abort_listener (abort_listeners st s)
                    (st\<lparr>aborted := (aborted st)(s := True)\<rparr>)))"

section \<open>PredictedProcess.memoize\<close>

definition memoize :: "PredictedProcess \<Rightarrow> PredictedProcess" where
  "memoize p = \<lparr>pid = pid p, command = command p, childProcess = None, cache = Map.empty\<rparr>"

text \<open>
  The \<open>run\<close> of the memoized object. Its body is an arrow function, so \<open>this\<close> is
  the original process: it is that object's cache and \<open>run\<close> which are used. The
  function is \<open>async\<close> and returns a promise on both of its last two paths, so every
  call that is not rejected at once returns a new promise resolved with the cached one;
  the cached promise itself is never handed out.
\<close>

definition memoized_run :: "sigref option \<Rightarrow> world \<Rightarrow> pref \<times> world" where
  "memoized_run signal st =
     (if signal_aborted signal st
      then new_promise (Rejected (Error ''Signal already aborted'')) st
      else
        (case cache st signal of
           Some p \<Rightarrow> async_return p st
         | None \<Rightarrow>
             (let (p, st1) = run signal st;
                  st2 = st1\<lparr>cache := (cache st1)(signal \<mapsto> p)\<rparr>;
                  st3 = promise_catch p (CacheDelete signal) st2
              in async_return p st3)))"

section \<open>PredictedProcessesManager\<close>

definition addProcess :: "PredictedProcess \<Rightarrow> PredictedProcessesManager \<Rightarrow> PredictedProcessesManager" where
  "addProcess p m = m\<lparr>processes := processes m @ [p]\<rparr>"

definition removeProcess :: "int \<Rightarrow> PredictedProcessesManager \<Rightarrow> PredictedProcessesManager" where
  "removeProcess i m = m\<lparr>processes := filter (\<lambda>p. pid p \<noteq> i) (processes m)\<rparr>"

definition getProcess :: "int \<Rightarrow> PredictedProcessesManager \<Rightarrow> PredictedProcess option" where
  "getProcess i m = find (\<lambda>p. pid p = i) (processes m)"

text \<open>The body of \<open>runAll\<close> is empty: the promise it returns is fulfilled at once.\<close>

definition runAll :: "sigref option \<Rightarrow> PredictedProcessesManager \<Rightarrow> world \<Rightarrow> pref \<times> world" where
  "runAll signal m st = new_promise Fulfilled st"

section \<open>Executions\<close>

text \<open>\<open>new PredictedProcess(id, command)\<close> in a heap with no child, promise or listener.\<close>

definition new_world :: "int \<Rightarrow> string \<Rightarrow> world" where
  "new_world i c =
     \<lparr>pid = i, command = c, childProcess = None, cache = Map.empty,
      children = [], promises = [], aborted = (\<lambda>s. False),
      abort_listeners = (\<lambda>s. []), microtasks = []\<rparr>"

text \<open>
  The turns of the event loop: a caller invokes \<open>run\<close> on the process or on its
  memoized wrapper, a child emits an event, or a signal is aborted. Every turn ends with
  the microtask checkpoint.
\<close>

datatype action =
    Call "sigref option"
  | MemoCall "sigref option"
  | ChildEvent handle event
  | AbortFired sigref

fun step :: "action \<Rightarrow> world \<Rightarrow> world" where
  "step (Call signal) st = drain (snd (run signal st))"
| "step (MemoCall signal) st = drain (snd (memoized_run signal st))"
| "step (ChildEvent h ev) st = child_event h ev st"
| "step (AbortFired s) st = abort s st"

definition exec :: "action list \<Rightarrow> world \<Rightarrow> world" where
  "exec as st = fold step as st"

fun is_call :: "action \<Rightarrow> bool" where
  "is_call (Call signal) = True"
| "is_call (MemoCall signal) = True"
| "is_call (ChildEvent h ev) = False"
| "is_call (AbortFired s) = False"

section \<open>Invariants\<close>

text \<open>
  What the listeners called in one turn may change, between the state \<open>st\<close> before the
  first and the state \<open>st'\<close> after the last: they settle pending promises, queue the
  reactions of those they reject, remove listeners and kill children. They leave the cache,
  the field \<open>_childProcess\<close> and the reactions alone, and a settled promise keeps its
  state.
\<close>

definition handler_phase :: "world \<Rightarrow> world \<Rightarrow> bool" where
  "handler_phase st st' \<longleftrightarrow>
     cache st' = cache st \<and> childProcess st' = childProcess st \<and>
     aborted st' = aborted st \<and> abort_listeners st' = abort_listeners st \<and>
     command st' = command st \<and>
     length (children st') = length (children st) \<and>
     length (promises st') = length (promises st) \<and>
     (\<forall>q. on_rejected (promises st' ! q) = on_rejected (promises st ! q)) \<and>
     (\<forall>q. resolved_with (promises st' ! q) = resolved_with (promises st ! q)) \<and>
     (\<forall>q. state (promises st ! q) \<noteq> Pending \<longrightarrow>
            state (promises st' ! q) = state (promises st ! q)) \<and>
     (\<forall>q. state (promises st' ! q) \<noteq> state (promises st ! q) \<longrightarrow> q < length (promises st)) \<and>
     (\<forall>j. j \<in> set (microtasks st') \<longleftrightarrow>
            j \<in> set (microtasks st) \<or>
            (\<exists>q r. state (promises st ! q) = Pending \<and>
                   state (promises st' ! q) = Rejected r \<and>
                   j \<in> set (on_rejected (promises st ! q)))) \<and>
     (\<forall>h. kills (children st ! h) \<le> kills (children st' ! h)) \<and>
     (\<forall>h. listeners (children st' ! h) = listeners (children st ! h) \<or>
           listeners (children st' ! h) = [])"

text \<open>
  The cache between two turns: no microtask is pending, a cached promise is never a
  rejected one, and it is the pending promises in the cache that carry the reaction
  deleting their key.
\<close>

definition cache_inv :: "world \<Rightarrow> bool" where
  "cache_inv st \<longleftrightarrow>
     microtasks st = [] \<and>
     (\<forall>k p. cache st k = Some p \<longrightarrow>
        p < length (promises st) \<and>
        (\<forall>r. state (promises st ! p) \<noteq> Rejected r) \<and>
        (state (promises st ! p) = Pending \<longrightarrow>
           CacheDelete k \<in> set (on_rejected (promises st ! p)))) \<and>
     (\<forall>q k. q < length (promises st) \<and> state (promises st ! q) = Pending \<and>
        CacheDelete k \<in> set (on_rejected (promises st ! q)) \<longrightarrow> cache st k = Some q)"

text \<open>The promises in the cache are promises of \<open>run\<close>, resolved by their listeners.\<close>

definition cache_plain :: "world \<Rightarrow> bool" where
  "cache_plain st \<longleftrightarrow>
     (\<forall>k p. cache st k = Some p \<longrightarrow>
        p < length (promises st) \<and> resolved_with (promises st ! p) = None)"

section \<open>What each operation changes\<close>

lemma settle_fields [simp]:
  "children (settle p v st) = children st"
  "childProcess (settle p v st) = childProcess st"
  "cache (settle p v st) = cache st"
  "aborted (settle p v st) = aborted st"
  "abort_listeners (settle p v st) = abort_listeners st"
  "command (settle p v st) = command st"
  "length (promises (settle p v st)) = length (promises st)"
  by (simp_all add: settle_def)

lemma settle_on_rejected [simp]:
  "on_rejected (promises (settle p v st) ! q) = on_rejected (promises st ! q)"
  by (cases "q = p") (simp_all add: settle_def)

lemma settle_resolved_with [simp]:
  "resolved_with (promises (settle p v st) ! q) = resolved_with (promises st ! q)"
  by (cases "q = p") (simp_all add: settle_def)

lemma settle_state:
  "state (promises (settle p v st) ! q) =
     (if q = p \<and> p < length (promises st) \<and> state (promises st ! p) = Pending
      then v else state (promises st ! q))"
  by (cases "q = p") (simp_all add: settle_def)

lemma settle_microtasks:
  "microtasks (settle p Fulfilled st) = microtasks st"
  "microtasks (settle p (Rejected r) st) =
     microtasks st @
       (if p < length (promises st) \<and> state (promises st ! p) = Pending
        then on_rejected (promises st ! p) else [])"
  by (simp_all add: settle_def)

lemma cleanup_fields [simp]:
  "promises (cleanup st) = promises st"
  "childProcess (cleanup st) = childProcess st"
  "cache (cleanup st) = cache st"
  "aborted (cleanup st) = aborted st"
  "abort_listeners (cleanup st) = abort_listeners st"
  "command (cleanup st) = command st"
  "microtasks (cleanup st) = microtasks st"
  "length (children (cleanup st)) = length (children st)"
  by (simp_all add: cleanup_def kill_def removeAllListeners_def split: option.splits)

lemma cleanup_kills:
  "kills (children (cleanup st) ! h) =
     (if childProcess st = Some h \<and> h < length (children st)
      then Suc (kills (children st ! h)) else kills (children st ! h))"
  by (auto simp: cleanup_def kill_def removeAllListeners_def nth_list_update split: option.splits)

lemma cleanup_listeners:
  "listeners (children (cleanup st) ! h) =
     (if childProcess st = Some h \<and> h < length (children st)
      then [] else listeners (children st ! h))"
  by (auto simp: cleanup_def kill_def removeAllListeners_def nth_list_update split: option.splits)

lemma fold_run_job:
  "fold run_job js st =
     st\<lparr>cache := (\<lambda>k. if CacheDelete k \<in> set js then None else cache st k)\<rparr>"
proof (induction js arbitrary: st)
  case Nil
  show ?case by simp
next
  case (Cons j js)
  show ?case
    by (cases j) (auto simp: Cons.IH fun_eq_iff)
qed

lemma drain_fields [simp]:
  "promises (drain st) = promises st"
  "children (drain st) = children st"
  "childProcess (drain st) = childProcess st"
  "aborted (drain st) = aborted st"
  "abort_listeners (drain st) = abort_listeners st"
  "command (drain st) = command st"
  "microtasks (drain st) = []"
  by (simp_all add: drain_def fold_run_job)

lemma drain_cache:
  "cache (drain st) k = (if CacheDelete k \<in> set (microtasks st) then None else cache st k)"
  by (simp add: drain_def fold_run_job)

section \<open>The listeners of one turn\<close>

lemma handler_phase_refl: "handler_phase st st"
  by (auto simp: handler_phase_def)

lemma handler_phase_microtasks:
  assumes "handler_phase a b"
  shows "j \<in> set (microtasks b) \<longleftrightarrow>
           j \<in> set (microtasks a) \<or>
           (\<exists>q r. state (promises a ! q) = Pending \<and> state (promises b ! q) = Rejected r \<and>
                  j \<in> set (on_rejected (promises a ! q)))"
  using assms unfolding handler_phase_def by blast

lemma handler_phase_settled:
  assumes "handler_phase a b" and "state (promises a ! q) \<noteq> Pending"
  shows "state (promises b ! q) = state (promises a ! q)"
  using assms unfolding handler_phase_def by blast

lemma handler_phase_on_rejected:
  assumes "handler_phase a b"
  shows "on_rejected (promises b ! q) = on_rejected (promises a ! q)"
  using assms unfolding handler_phase_def by blast

lemma handler_phase_resolved_with:
  assumes "handler_phase a b"
  shows "resolved_with (promises b ! q) = resolved_with (promises a ! q)"
  using assms unfolding handler_phase_def by blast

lemma handler_phase_fields:
  assumes "handler_phase a b"
  shows "cache b = cache a" and "childProcess b = childProcess a"
    and "aborted b = aborted a" and "abort_listeners b = abort_listeners a"
    and "command b = command a"
    and "length (children b) = length (children a)"
    and "length (promises b) = length (promises a)"
  using assms unfolding handler_phase_def by blast+

lemma handler_phase_changed:
  assumes "handler_phase a b" and "state (promises b ! q) \<noteq> state (promises a ! q)"
  shows "q < length (promises a)"
  using assms unfolding handler_phase_def by blast

lemma handler_phase_listeners:
  assumes "handler_phase a b"
  shows "listeners (children b ! h) = listeners (children a ! h) \<or>
         listeners (children b ! h) = []"
  using assms unfolding handler_phase_def by blast

lemma handler_phase_trans:
  assumes ab: "handler_phase a b" and bc: "handler_phase b c"
  shows "handler_phase a c"
  unfolding handler_phase_def
proof (intro conjI allI)
  fix j
  show "j \<in> set (microtasks c) \<longleftrightarrow>
           j \<in> set (microtasks a) \<or>
           (\<exists>q r. state (promises a ! q) = Pending \<and> state (promises c ! q) = Rejected r \<and>
                  j \<in> set (on_rejected (promises a ! q)))"
    (is "?L \<longleftrightarrow> ?R")
  proof
    assume ?L
    then consider "j \<in> set (microtasks b)"
      | q r where "state (promises b ! q) = Pending" "state (promises c ! q) = Rejected r"
          "j \<in> set (on_rejected (promises b ! q))"
      using handler_phase_microtasks [OF bc, of j] by blast
    then show ?R
    proof cases
      case 1
      then consider "j \<in> set (microtasks a)"
        | q r where "state (promises a ! q) = Pending" "state (promises b ! q) = Rejected r"
            "j \<in> set (on_rejected (promises a ! q))"
        using handler_phase_microtasks [OF ab, of j] by blast
      then show ?R
      proof cases
        case 1
        then show ?thesis by simp
      next
        case 2
        from 2(2) have "state (promises c ! q) = Rejected r"
          using handler_phase_settled [OF bc, of q] by simp
        with 2 show ?thesis by blast
      qed
    next
      case 2
      have "state (promises a ! q) = Pending"
        using handler_phase_settled [OF ab, of q] 2(1) by force
      moreover have "j \<in> set (on_rejected (promises a ! q))"
        using 2(3) handler_phase_on_rejected [OF ab, of q] by simp
      ultimately show ?thesis using 2(2) by blast
    qed
  next
    assume ?R
    then consider "j \<in> set (microtasks a)"
      | q r where "state (promises a ! q) = Pending" "state (promises c ! q) = Rejected r"
          "j \<in> set (on_rejected (promises a ! q))"
      by blast
    then show ?L
    proof cases
      case 1
      then have "j \<in> set (microtasks b)"
        using handler_phase_microtasks [OF ab, of j] by blast
      then show ?thesis
        using handler_phase_microtasks [OF bc, of j] by blast
    next
      case 2
      show ?thesis
      proof (cases "state (promises b ! q) = Pending")
        case True
        with 2 show ?thesis
          using handler_phase_microtasks [OF bc, of j] handler_phase_on_rejected [OF ab, of q]
          by auto
      next
        case False
        then have "state (promises b ! q) = Rejected r"
          using handler_phase_settled [OF bc, of q] 2(2) by simp
        with 2 have "j \<in> set (microtasks b)"
          using handler_phase_microtasks [OF ab, of j] by blast
        then show ?thesis
          using handler_phase_microtasks [OF bc, of j] by blast
      qed
    qed
  qed
next
  fix h
  show "kills (children a ! h) \<le> kills (children c ! h)"
    using ab bc unfolding handler_phase_def by (meson order_trans)
next
  fix h
  show "listeners (children c ! h) = listeners (children a ! h) \<or>
        listeners (children c ! h) = []"
    using ab bc unfolding handler_phase_def by metis
next
  fix q
  show "state (promises a ! q) \<noteq> Pending \<longrightarrow>
        state (promises c ! q) = state (promises a ! q)"
    using handler_phase_settled [OF ab, of q] handler_phase_settled [OF bc, of q] by auto
next
  fix q
  show "state (promises c ! q) \<noteq> state (promises a ! q) \<longrightarrow> q < length (promises a)"
    using ab bc unfolding handler_phase_def by metis
qed (use ab bc in \<open>simp_all add: handler_phase_def\<close>)

lemma handler_phase_settle:
  assumes "v \<noteq> Pending"
  shows "handler_phase st (settle p v st)"
  unfolding handler_phase_def
proof (intro conjI allI)
  fix j
  show "j \<in> set (microtasks (settle p v st)) \<longleftrightarrow>
            j \<in> set (microtasks st) \<or>
            (\<exists>q r. state (promises st ! q) = Pending \<and>
                   state (promises (settle p v st) ! q) = Rejected r \<and>
                   j \<in> set (on_rejected (promises st ! q)))"
    by (cases v) (use assms in \<open>auto simp: settle_state settle_microtasks\<close>)
qed (use assms in \<open>auto simp: settle_state\<close>)

lemma handler_phase_cleanup: "handler_phase st (cleanup st)"
  by (auto simp: handler_phase_def cleanup_kills cleanup_listeners)

lemma handler_phase_invoke: "handler_phase st (invoke cb ev st)"
  by (cases "(cb, ev, st)" rule: invoke.cases)
     (auto simp: resolve_def reject_def
           intro: handler_phase_refl handler_phase_settle
                  handler_phase_trans [OF handler_phase_cleanup])

lemma handler_phase_abort_listener: "handler_phase st (abort_listener p st)"
  by (auto simp: abort_listener_def reject_def
           intro: handler_phase_settle handler_phase_trans [OF handler_phase_cleanup])

lemma handler_phase_fold:
  assumes "\<And>x st. handler_phase st (f x st)"
  shows "handler_phase st (fold f xs st)"
proof (induction xs arbitrary: st)
  case Nil
  show ?case by (simp add: handler_phase_refl)
next
  case (Cons x xs)
  show ?case
    using handler_phase_trans [OF assms [of st x] Cons.IH [of "f x st"]] by simp
qed

lemma handler_phase_emit: "handler_phase st (emit h ev st)"
  by (simp add: emit_def handler_phase_refl handler_phase_fold handler_phase_invoke)

section \<open>The effect of a call\<close>

lemma run_not_aborted:
  assumes "\<not> signal_aborted signal st"
  shows "run signal st =
    (length (promises st),
     st\<lparr>childProcess := Some (length (children st)),
        children := children st @
          [\<lparr>spawnfile = fst (destructure (split CHR '' '' (command st))),
            spawnargs = snd (destructure (split CHR '' '' (command st))),
            listeners = [(OnError, ErrorCb (length (promises st))),
                         (OnExit, ExitCb (length (promises st))),
                         (OnClose, CloseCb (length (promises st)))],
            kills = 0\<rparr>],
        promises := promises st @ [\<lparr>state = Pending, on_rejected = [], resolved_with = None\<rparr>],
        abort_listeners :=
          (case signal of
             None \<Rightarrow> abort_listeners st
           | Some s \<Rightarrow> (abort_listeners st)(s := abort_listeners st s @ [length (promises st)]))\<rparr>)"
  using assms
  by (cases "destructure (split CHR '' '' (command st))")
     (simp add: run_def new_promise_def spawn_def on_childProcess_def on_def
        addEventListener_def split: option.splits)

lemma run_aborted:
  assumes "signal_aborted signal st"
  shows "run signal st =
    (length (promises st),
     st\<lparr>promises := promises st @
          [\<lparr>state = Rejected (Error ''Aborted before execution''), on_rejected = [], resolved_with = None\<rparr>]\<rparr>)"
  using assms by (simp add: run_def new_promise_def)

section \<open>The cache invariant\<close>

lemma cache_inv_new_world: "cache_inv (new_world i c)"
  by (simp add: cache_inv_def new_world_def)

lemma cache_inv_aborted_update [simp]:
  "cache_inv (st\<lparr>aborted := f\<rparr>) = cache_inv st"
  by (simp add: cache_inv_def)

lemma cache_inv_phase_drain:
  assumes inv: "cache_inv st" and ph: "handler_phase st st'"
  shows "cache_inv (drain st')"
proof -
  have cached: "p < length (promises st') \<and> (\<forall>r. state (promises st' ! p) \<noteq> Rejected r) \<and>
      (state (promises st' ! p) = Pending \<longrightarrow>
         CacheDelete k \<in> set (on_rejected (promises st' ! p)))"
    if c: "cache (drain st') k = Some p" for k p
  proof -
    from c have nj: "CacheDelete k \<notin> set (microtasks st')" and "cache st' k = Some p"
      by (auto simp: drain_cache split: if_splits)
    then have cp: "cache st k = Some p"
      using ph by (simp add: handler_phase_def)
    from inv cp have lt: "p < length (promises st)"
      and nr: "\<And>r. state (promises st ! p) \<noteq> Rejected r"
      and pj: "state (promises st ! p) = Pending \<Longrightarrow>
               CacheDelete k \<in> set (on_rejected (promises st ! p))"
      unfolding cache_inv_def by blast+
    have 1: "p < length (promises st')"
      using lt ph by (simp add: handler_phase_def)
    have 2: "state (promises st' ! p) \<noteq> Rejected r" for r
    proof
      assume r: "state (promises st' ! p) = Rejected r"
      have "state (promises st ! p) = Pending"
        using handler_phase_settled [OF ph, of p] r nr [of r] by metis
      then have "CacheDelete k \<in> set (microtasks st')"
        using pj r handler_phase_microtasks [OF ph, of "CacheDelete k"] by blast
      with nj show False by simp
    qed
    have 3: "CacheDelete k \<in> set (on_rejected (promises st' ! p))"
      if "state (promises st' ! p) = Pending"
    proof -
      have "state (promises st ! p) = Pending"
        using that handler_phase_settled [OF ph, of p] by fastforce
      then show ?thesis
        using pj handler_phase_on_rejected [OF ph, of p] by simp
    qed
    from 1 2 3 show ?thesis by blast
  qed
  show ?thesis
    unfolding cache_inv_def
proof (intro conjI allI impI)
  show "microtasks (drain st') = []" by simp
next
  fix k p
  assume c: "cache (drain st') k = Some p"
  from cached [OF c] show "p < length (promises (drain st'))" by simp
next
  fix k p r
  assume c: "cache (drain st') k = Some p"
  from cached [OF c] show "state (promises (drain st') ! p) \<noteq> Rejected r" by simp
next
  fix k p
  assume c: "cache (drain st') k = Some p"
    and "state (promises (drain st') ! p) = Pending"
  with cached [OF c] show "CacheDelete k \<in> set (on_rejected (promises (drain st') ! p))"
    by simp
next
  fix q k
  assume a: "q < length (promises (drain st')) \<and> state (promises (drain st') ! q) = Pending \<and>
        CacheDelete k \<in> set (on_rejected (promises (drain st') ! q))"
  then have ql: "q < length (promises st)"
    using ph by (simp add: handler_phase_def)
  have qp: "state (promises st ! q) = Pending"
    using a handler_phase_settled [OF ph, of q] by force
  have qj: "CacheDelete k \<in> set (on_rejected (promises st ! q))"
    using a handler_phase_on_rejected [OF ph, of q] by simp
  from inv ql qp qj have cq: "cache st k = Some q"
    unfolding cache_inv_def by blast
  have "CacheDelete k \<notin> set (microtasks st')"
  proof
    assume "CacheDelete k \<in> set (microtasks st')"
    moreover have "microtasks st = []"
      using inv by (simp add: cache_inv_def)
    ultimately obtain q' r where q': "state (promises st ! q') = Pending"
      "state (promises st' ! q') = Rejected r"
      "CacheDelete k \<in> set (on_rejected (promises st ! q'))"
      using handler_phase_microtasks [OF ph, of "CacheDelete k"] by auto
    then have "q' < length (promises st)"
      using ph unfolding handler_phase_def by (metis pstate.distinct(3))
    with inv q' have "cache st k = Some q'"
      unfolding cache_inv_def by blast
    with cq have "q' = q" by simp
    with q'(2) a show False by simp
  qed
  then show "cache (drain st') k = Some q"
    using cq ph by (simp add: drain_cache handler_phase_def)
qed
qed

lemma cache_inv_child_event:
  assumes "cache_inv st"
  shows "cache_inv (child_event h ev st)"
  unfolding child_event_def
  using cache_inv_phase_drain [OF assms handler_phase_emit] .

lemma cache_inv_abort:
  assumes "cache_inv st"
  shows "cache_inv (abort s st)"
proof (cases "aborted st s")
  case True
  then show ?thesis using assms by (simp add: abort_def)
next
  case False
  have "cache_inv (st\<lparr>aborted := (aborted st)(s := True)\<rparr>)"
    using assms by simp
  from cache_inv_phase_drain [OF this handler_phase_fold [of abort_listener, OF handler_phase_abort_listener]]
  show ?thesis using False by (simp add: abort_def)
qed

lemma drain_no_microtasks:
  assumes "microtasks st = []"
  shows "drain st = st"
  using assms by (simp add: drain_def)

lemma cache_invI:
  assumes "microtasks st = []"
    and "\<And>k p. cache st k = Some p \<Longrightarrow> p < length (promises st)"
    and "\<And>k p r. cache st k = Some p \<Longrightarrow> state (promises st ! p) \<noteq> Rejected r"
    and "\<And>k p. cache st k = Some p \<Longrightarrow> state (promises st ! p) = Pending \<Longrightarrow>
           CacheDelete k \<in> set (on_rejected (promises st ! p))"
    and "\<And>q k. q < length (promises st) \<Longrightarrow> state (promises st ! q) = Pending \<Longrightarrow>
           CacheDelete k \<in> set (on_rejected (promises st ! q)) \<Longrightarrow> cache st k = Some q"
  shows "cache_inv st"
  unfolding cache_inv_def using assms by blast

lemma cache_inv_cached:
  assumes "cache_inv st" and "cache st k = Some p"
  shows "p < length (promises st)"
    and "state (promises st ! p) \<noteq> Rejected r"
    and "state (promises st ! p) = Pending \<Longrightarrow>
           CacheDelete k \<in> set (on_rejected (promises st ! p))"
  using assms unfolding cache_inv_def by blast+

lemma cache_inv_reaction:
  assumes "cache_inv st" and "q < length (promises st)"
    and "state (promises st ! q) = Pending"
    and "CacheDelete k \<in> set (on_rejected (promises st ! q))"
  shows "cache st k = Some q"
  using assms unfolding cache_inv_def by blast

lemma cache_inv_microtasks:
  assumes "cache_inv st"
  shows "microtasks st = []"
  using assms by (simp add: cache_inv_def)

lemma cache_inv_cong:
  assumes "microtasks st' = microtasks st" and "cache st' = cache st"
    and "promises st' = promises st"
  shows "cache_inv st' = cache_inv st"
  by (simp only: cache_inv_def assms)

lemma cache_inv_append_promise:
  assumes inv: "cache_inv st" and pr: "on_rejected pr = []"
  shows "cache_inv (st\<lparr>promises := promises st @ [pr]\<rparr>)"
proof (rule cache_invI)
  show "microtasks (st\<lparr>promises := promises st @ [pr]\<rparr>) = []"
    using cache_inv_microtasks [OF inv] by simp
next
  fix k p
  assume "cache (st\<lparr>promises := promises st @ [pr]\<rparr>) k = Some p"
  then have c: "cache st k = Some p" by simp
  note lt = cache_inv_cached(1) [OF inv c]
  show "p < length (promises (st\<lparr>promises := promises st @ [pr]\<rparr>))"
    using lt by simp
  have nth: "promises (st\<lparr>promises := promises st @ [pr]\<rparr>) ! p = promises st ! p"
    using lt by (simp add: nth_append)
  show "state (promises (st\<lparr>promises := promises st @ [pr]\<rparr>) ! p) \<noteq> Rejected r" for r
    unfolding nth by (rule cache_inv_cached(2) [OF inv c])
  show "CacheDelete k \<in> set (on_rejected (promises (st\<lparr>promises := promises st @ [pr]\<rparr>) ! p))"
    if "state (promises (st\<lparr>promises := promises st @ [pr]\<rparr>) ! p) = Pending"
    using that unfolding nth by (rule cache_inv_cached(3) [OF inv c])
next
  fix q k
  assume q: "q < length (promises (st\<lparr>promises := promises st @ [pr]\<rparr>))"
    and pe: "state (promises (st\<lparr>promises := promises st @ [pr]\<rparr>) ! q) = Pending"
    and j: "CacheDelete k \<in> set (on_rejected (promises (st\<lparr>promises := promises st @ [pr]\<rparr>) ! q))"
  have "q < length (promises st)"
  proof (rule ccontr)
    assume "\<not> q < length (promises st)"
    with q have "q = length (promises st)" by simp
    with j pr show False by simp
  qed
  then have "cache st k = Some q"
    using pe j by (intro cache_inv_reaction [OF inv]) (simp_all add: nth_append)
  then show "cache (st\<lparr>promises := promises st @ [pr]\<rparr>) k = Some q" by simp
qed

lemma cache_inv_run:
  assumes "cache_inv st"
  shows "cache_inv (snd (run signal st))"
proof (cases "signal_aborted signal st")
  case True
  let ?pr = "\<lparr>state = Rejected (Error ''Aborted before execution''), on_rejected = [], resolved_with = None\<rparr>"
  have "cache_inv (st\<lparr>promises := promises st @ [?pr]\<rparr>)"
    by (rule cache_inv_append_promise [OF assms]) simp
  then show ?thesis
    by (simp only: run_aborted [OF True] snd_conv)
next
  case False
  let ?pr = "\<lparr>state = Pending, on_rejected = [], resolved_with = None\<rparr>"
  have "cache_inv (st\<lparr>promises := promises st @ [?pr]\<rparr>)"
    by (rule cache_inv_append_promise [OF assms]) simp
  moreover have "cache_inv (snd (run signal st)) =
      cache_inv (st\<lparr>promises := promises st @ [?pr]\<rparr>)"
    by (rule cache_inv_cong) (simp_all add: run_not_aborted [OF False])
  ultimately show ?thesis by simp
qed

lemma memoized_run_aborted:
  assumes "signal_aborted signal st"
  shows "memoized_run signal st =
    (length (promises st),
     st\<lparr>promises := promises st @
          [\<lparr>state = Rejected (Error ''Signal already aborted''), on_rejected = [], resolved_with = None\<rparr>]\<rparr>)"
  using assms by (simp add: memoized_run_def new_promise_def)

lemma async_return_fields [simp]:
  "fst (async_return p st) = length (promises st)"
  "promises (snd (async_return p st)) =
     promises st @ [\<lparr>state = Pending, on_rejected = [], resolved_with = Some p\<rparr>]"
  "children (snd (async_return p st)) = children st"
  "childProcess (snd (async_return p st)) = childProcess st"
  "cache (snd (async_return p st)) = cache st"
  "aborted (snd (async_return p st)) = aborted st"
  "abort_listeners (snd (async_return p st)) = abort_listeners st"
  "command (snd (async_return p st)) = command st"
  "microtasks (snd (async_return p st)) = microtasks st"
  by (simp_all add: async_return_def)

lemma cache_inv_async_return:
  assumes "cache_inv st"
  shows "cache_inv (snd (async_return p st))"
  using cache_inv_append_promise [OF assms,
      of "\<lparr>state = Pending, on_rejected = [], resolved_with = Some p\<rparr>"]
  by (simp add: async_return_def)

lemma memoized_run_hit:
  assumes "\<not> signal_aborted signal st" and "cache st signal = Some p"
  shows "memoized_run signal st = async_return p st"
  using assms by (simp add: memoized_run_def)

lemma memoized_run_miss:
  assumes "\<not> signal_aborted signal st" and "cache st signal = None"
  shows "memoized_run signal st =
    async_return (length (promises st))
      ((snd (run signal st))
         \<lparr>cache := (cache st)(signal \<mapsto> length (promises st)),
          promises := promises st @
            [\<lparr>state = Pending, on_rejected = [CacheDelete signal], resolved_with = None\<rparr>]\<rparr>)"
  using assms
  by (simp add: memoized_run_def run_not_aborted promise_catch_def)

lemma cache_inv_memoized_run:
  assumes inv: "cache_inv st"
  shows "cache_inv (snd (memoized_run signal st))"
proof (cases "signal_aborted signal st")
  case True
  let ?pr = "\<lparr>state = Rejected (Error ''Signal already aborted''), on_rejected = [], resolved_with = None\<rparr>"
  have "cache_inv (st\<lparr>promises := promises st @ [?pr]\<rparr>)"
    by (rule cache_inv_append_promise [OF inv]) simp
  then show ?thesis
    by (simp only: memoized_run_aborted [OF True] snd_conv)
next
  case False
  show ?thesis
  proof (cases "cache st signal")
    case (Some p)
    then show ?thesis
      using False cache_inv_async_return [OF inv] by (simp add: memoized_run_hit)
  next
    case None
    let ?n = "length (promises st)"
    let ?st' = "(snd (run signal st))
         \<lparr>cache := (cache st)(signal \<mapsto> length (promises st)),
          promises := promises st @
            [\<lparr>state = Pending, on_rejected = [CacheDelete signal], resolved_with = None\<rparr>]\<rparr>"
    have mt: "microtasks ?st' = []"
      using cache_inv_microtasks [OF inv]
      by (simp add: run_not_aborted [OF False])
    have ca: "cache ?st' = (cache st)(signal \<mapsto> ?n)"
      by simp
    have pr: "promises ?st' = promises st @ [\<lparr>state = Pending, on_rejected = [CacheDelete signal], resolved_with = None\<rparr>]"
      by simp
    have "cache_inv ?st'"
    proof (rule cache_invI)
      show "microtasks ?st' = []" by (rule mt)
    next
      fix k p
      assume c: "cache ?st' k = Some p"
      show "p < length (promises ?st')"
      proof (cases "k = signal")
        case True
        with c have "p = ?n" by (simp add: ca)
        then show ?thesis by (simp add: pr)
      next
        case False
        with c have "cache st k = Some p" by (simp add: ca)
        from cache_inv_cached(1) [OF inv this] show ?thesis by (simp add: pr)
      qed
      show "state (promises ?st' ! p) \<noteq> Rejected r" for r
      proof (cases "k = signal")
        case True
        with c have "p = ?n" by (simp add: ca)
        then show ?thesis by (simp add: pr)
      next
        case False
        with c have c': "cache st k = Some p" by (simp add: ca)
        from cache_inv_cached(1,2) [OF inv c'] show ?thesis by (simp add: pr nth_append)
      qed
      show "CacheDelete k \<in> set (on_rejected (promises ?st' ! p))"
        if pe: "state (promises ?st' ! p) = Pending"
      proof (cases "k = signal")
        case True
        with c have "p = ?n" by (simp add: ca)
        with True show ?thesis by (simp add: pr)
      next
        case False
        with c have c': "cache st k = Some p" by (simp add: ca)
        note lt = cache_inv_cached(1) [OF inv c']
        from pe lt have "state (promises st ! p) = Pending" by (simp add: pr nth_append)
        from cache_inv_cached(3) [OF inv c' this] lt show ?thesis by (simp add: pr nth_append)
      qed
    next
      fix q k
      assume q: "q < length (promises ?st')"
        and pe: "state (promises ?st' ! q) = Pending"
        and j: "CacheDelete k \<in> set (on_rejected (promises ?st' ! q))"
      show "cache ?st' k = Some q"
      proof (cases "q = ?n")
        case True
        with j have "k = signal" by (simp add: pr)
        with True show ?thesis by (simp add: ca)
      next
        case False
        with q have lt: "q < ?n" by (simp add: pr)
        with pe j have "state (promises st ! q) = Pending"
          and "CacheDelete k \<in> set (on_rejected (promises st ! q))"
          by (simp_all add: pr nth_append)
        from cache_inv_reaction [OF inv lt this] have cq: "cache st k = Some q" .
        with None have "k \<noteq> signal" by auto
        with cq show ?thesis by (simp add: ca)
      qed
    qed
    from cache_inv_async_return [OF this, of ?n] show ?thesis
      by (simp only: memoized_run_miss [OF False None])
  qed
qed

lemma cache_inv_step:
  assumes "cache_inv st"
  shows "cache_inv (step a st)"
proof (cases a)
  case (Call signal)
  then show ?thesis
    using cache_inv_run [OF assms, of signal]
    by (simp add: drain_no_microtasks cache_inv_microtasks)
next
  case (MemoCall signal)
  then show ?thesis
    using cache_inv_memoized_run [OF assms, of signal]
    by (simp add: drain_no_microtasks cache_inv_microtasks)
next
  case (ChildEvent h ev)
  then show ?thesis using cache_inv_child_event [OF assms] by simp
next
  case (AbortFired s)
  then show ?thesis using cache_inv_abort [OF assms] by simp
qed

lemma cache_inv_exec:
  assumes "cache_inv st"
  shows "cache_inv (exec as st)"
  using assms unfolding exec_def
  by (induction as arbitrary: st) (simp_all add: cache_inv_step)

section \<open>Lists of processes\<close>

lemma find_append:
  "find P (xs @ ys) = (case find P xs of None \<Rightarrow> find P ys | Some x \<Rightarrow> Some x)"
  by (induction xs) simp_all

section \<open>Sequences of turns\<close>

lemma exec_Cons: "exec (a # as) st = exec as (step a st)"
  by (simp add: exec_def)

lemma exec_Nil: "exec [] st = st"
  by (simp add: exec_def)

lemma memoized_run_miss_effects:
  assumes "\<not> signal_aborted signal st" and "cache st signal = None"
  shows "fst (memoized_run signal st) = Suc (length (promises st))"
    and "cache (snd (memoized_run signal st)) signal = Some (length (promises st))"
    and "length (children (snd (memoized_run signal st))) = Suc (length (children st))"
    and "state (promises (snd (memoized_run signal st)) ! length (promises st)) = Pending"
    and "microtasks (snd (memoized_run signal st)) = microtasks st"
    and "aborted (snd (memoized_run signal st)) = aborted st"
    and "resolved_with (promises (snd (memoized_run signal st)) ! Suc (length (promises st))) =
           Some (length (promises st))"
    and "length (promises (snd (memoized_run signal st))) = Suc (Suc (length (promises st)))"
  by (simp_all add: memoized_run_miss [OF assms] run_not_aborted [OF assms(1)] nth_append)

lemma memoized_run_hit_effects:
  assumes "\<not> signal_aborted signal st" and "cache st signal = Some p"
  shows "fst (memoized_run signal st) = length (promises st)"
    and "cache (snd (memoized_run signal st)) = cache st"
    and "children (snd (memoized_run signal st)) = children st"
    and "childProcess (snd (memoized_run signal st)) = childProcess st"
    and "abort_listeners (snd (memoized_run signal st)) = abort_listeners st"
    and "microtasks (snd (memoized_run signal st)) = microtasks st"
    and "aborted (snd (memoized_run signal st)) = aborted st"
    and "resolved_with (promises (snd (memoized_run signal st)) ! length (promises st)) = Some p"
    and "length (promises (snd (memoized_run signal st))) = Suc (length (promises st))"
  by (simp_all add: memoized_run_hit [OF assms])

text \<open>Calls that find the entry of their signal, one after the other.\<close>

lemma repeated_hits:
  assumes "\<not> signal_aborted signal st" and "cache st signal = Some p"
    and "microtasks st = []"
  shows "children (exec (replicate n (MemoCall signal)) st) = children st \<and>
         cache (exec (replicate n (MemoCall signal)) st) = cache st \<and>
         aborted (exec (replicate n (MemoCall signal)) st) = aborted st \<and>
         microtasks (exec (replicate n (MemoCall signal)) st) = []"
  using assms
proof (induction n arbitrary: st)
  case 0
  then show ?case by (simp add: exec_Nil)
next
  case (Suc n)
  let ?st1 = "snd (memoized_run signal st)"
  note h = memoized_run_hit_effects [OF Suc.prems(1,2)]
  have mt1: "microtasks ?st1 = []"
    using h(6) Suc.prems(3) by simp
  have s: "step (MemoCall signal) st = ?st1"
    by (simp add: drain_no_microtasks [OF mt1])
  have na1: "\<not> signal_aborted signal ?st1"
    using Suc.prems(1) h(7) by (simp add: signal_aborted_def split: option.splits)
  have c1: "cache ?st1 signal = Some p"
    using h(2) Suc.prems(2) by simp
  from Suc.IH [OF na1 c1 mt1] show ?case
    using h(2,3,7) by (simp add: exec_Cons drain_no_microtasks [OF mt1])
qed

lemma repeated_memoized_calls:
  assumes na: "\<not> signal_aborted signal st" and miss: "cache st signal = None"
    and mt: "microtasks st = []"
  shows "length (children (exec (replicate (Suc n) (MemoCall signal)) st)) =
           Suc (length (children st)) \<and>
         cache (exec (replicate (Suc n) (MemoCall signal)) st) signal =
           Some (length (promises st)) \<and>
         aborted (exec (replicate (Suc n) (MemoCall signal)) st) = aborted st \<and>
         microtasks (exec (replicate (Suc n) (MemoCall signal)) st) = []"
proof -
  let ?st1 = "snd (memoized_run signal st)"
  note m = memoized_run_miss_effects [OF na miss]
  have mt1: "microtasks ?st1 = []"
    using m(5) mt by simp
  have na1: "\<not> signal_aborted signal ?st1"
    using na m(6) by (simp add: signal_aborted_def split: option.splits)
  from repeated_hits [OF na1 m(2) mt1, of n] show ?thesis
    using m(2,3,6) by (simp add: exec_Cons drain_no_microtasks [OF mt1])
qed

section \<open>Promises and cache entries across a turn\<close>

lemma run_old_promise:
  assumes "p < length (promises st)"
  shows "promises (snd (run signal st)) ! p = promises st ! p"
  using assms
  by (cases "signal_aborted signal st") (simp_all add: run_aborted run_not_aborted nth_append)

lemma memoized_run_old_promise:
  assumes "p < length (promises st)"
  shows "promises (snd (memoized_run signal st)) ! p = promises st ! p"
proof (cases "signal_aborted signal st")
  case True
  then show ?thesis using assms by (simp add: memoized_run_aborted nth_append)
next
  case False
  then show ?thesis
    using assms
    by (cases "cache st signal")
       (simp_all add: memoized_run_hit memoized_run_miss nth_append)
qed

lemma memoized_run_cache:
  "cache (snd (memoized_run signal st)) k = Some q \<Longrightarrow>
     cache st k = Some q \<or> cache st k = None"
  by (cases "signal_aborted signal st"; cases "cache st signal")
     (auto simp: memoized_run_aborted memoized_run_hit memoized_run_miss split: if_splits)

lemma run_cache: "cache (snd (run signal st)) = cache st"
  by (cases "signal_aborted signal st") (simp_all add: run_aborted run_not_aborted)

lemma abort_phase:
  "handler_phase (st\<lparr>aborted := (aborted st)(s := True)\<rparr>)
     (fold abort_listener (abort_listeners st s) (st\<lparr>aborted := (aborted st)(s := True)\<rparr>))"
  by (rule handler_phase_fold [OF handler_phase_abort_listener])

text \<open>
  A turn that is not a call runs listeners from a state that differs from \<open>st\<close> in
  the \<open>aborted\<close> flags at most, then the microtasks; or it does nothing.
\<close>

lemma event_turn:
  assumes "\<not> is_call a"
  obtains st0 st' where "promises st0 = promises st" and "cache st0 = cache st"
    and "microtasks st0 = microtasks st" and "childProcess st0 = childProcess st"
    and "children st0 = children st" and "abort_listeners st0 = abort_listeners st"
    and "handler_phase st0 st'" and "step a st = drain st' \<or> step a st = st"
proof (cases a)
  case (ChildEvent h ev)
  show ?thesis
  proof (rule that [of st "emit h ev st"])
    show "handler_phase st (emit h ev st)" by (rule handler_phase_emit)
    show "step a st = drain (emit h ev st) \<or> step a st = st"
      using ChildEvent by (simp add: child_event_def)
  qed simp_all
next
  case (AbortFired s)
  let ?st0 = "st\<lparr>aborted := (aborted st)(s := True)\<rparr>"
  show ?thesis
  proof (rule that [of ?st0 "fold abort_listener (abort_listeners st s) ?st0"])
    show "handler_phase ?st0 (fold abort_listener (abort_listeners st s) ?st0)"
      by (rule abort_phase)
    show "step a st = drain (fold abort_listener (abort_listeners st s) ?st0) \<or> step a st = st"
      using AbortFired by (simp add: abort_def)
  qed simp_all
qed (use assms in simp_all)

lemma call_turn:
  assumes "is_call a" and "microtasks st = []"
  obtains signal where "step a st = snd (run signal st) \<or> step a st = snd (memoized_run signal st)"
proof (cases a)
  case (Call signal)
  have "microtasks (snd (run signal st)) = []"
    using assms(2)
    by (cases "signal_aborted signal st") (simp_all add: run_aborted run_not_aborted)
  then show ?thesis
    using Call that [of signal] by (simp add: drain_no_microtasks)
next
  case (MemoCall signal)
  have "microtasks (snd (memoized_run signal st)) = []"
    using assms(2)
    by (cases "signal_aborted signal st"; cases "cache st signal")
       (simp_all add: memoized_run_aborted memoized_run_hit memoized_run_miss run_not_aborted)
  then show ?thesis
    using MemoCall that [of signal] by (simp add: drain_no_microtasks)
qed (use assms in simp_all)

lemma step_cache:
  assumes mt: "microtasks st = []" and c: "cache (step a st) k = Some q"
  shows "cache st k = Some q \<or> cache st k = None"
proof (cases "is_call a")
  case True
  from call_turn [OF True mt] obtain signal where
    "step a st = snd (run signal st) \<or> step a st = snd (memoized_run signal st)" .
  then show ?thesis
    using c memoized_run_cache [of signal st k q] by (auto simp: run_cache)
next
  case False
  from event_turn [OF False, of st] obtain st0 st' where
    e: "cache st0 = cache st" "handler_phase st0 st'" "step a st = drain st' \<or> step a st = st"
    by blast
  from e(3) show ?thesis
  proof
    assume "step a st = drain st'"
    with c have "cache st' k = Some q"
      by (simp add: drain_cache split: if_splits)
    then show ?thesis
      using handler_phase_fields(1) [OF e(2)] e(1) by simp
  next
    assume "step a st = st"
    with c show ?thesis by simp
  qed
qed

lemma step_settled:
  assumes lt: "p < length (promises st)" and se: "state (promises st ! p) \<noteq> Pending"
  shows "state (promises (step a st) ! p) = state (promises st ! p)"
proof (cases "is_call a")
  case True
  then show ?thesis
    using lt by (cases a) (simp_all add: run_old_promise memoized_run_old_promise)
next
  case False
  from event_turn [OF False, of st] obtain st0 st' where
    e: "promises st0 = promises st" "handler_phase st0 st'"
       "step a st = drain st' \<or> step a st = st"
    by blast
  from e(3) show ?thesis
  proof
    assume "step a st = drain st'"
    then show ?thesis
      using handler_phase_settled [OF e(2), of p] se e(1) by simp
  qed simp
qed

lemma step_promises_length: "length (promises st) \<le> length (promises (step a st))"
proof (cases "is_call a")
  case True
  show ?thesis
  proof (cases a)
    case (Call signal)
    then show ?thesis
      by (cases "signal_aborted signal st") (simp_all add: run_aborted run_not_aborted)
  next
    case (MemoCall signal)
    then show ?thesis
      by (cases "signal_aborted signal st"; cases "cache st signal")
         (simp_all add: memoized_run_aborted memoized_run_hit memoized_run_miss)
  qed (use True in simp_all)
next
  case False
  from event_turn [OF False, of st] obtain st0 st' where
    e: "promises st0 = promises st" "handler_phase st0 st'"
       "step a st = drain st' \<or> step a st = st"
    by blast
  from e(3) show ?thesis
    using handler_phase_fields(7) [OF e(2)] e(1) by auto
qed

text \<open>A promise stays resolved with the promise it was resolved with.\<close>

lemma step_resolved_with:
  assumes lt: "q < length (promises st)"
  shows "resolved_with (promises (step a st) ! q) = resolved_with (promises st ! q)"
proof (cases "is_call a")
  case True
  then show ?thesis
    using lt by (cases a) (simp_all add: run_old_promise memoized_run_old_promise)
next
  case False
  from event_turn [OF False, of st] obtain st0 st' where
    e: "promises st0 = promises st" "handler_phase st0 st'"
       "step a st = drain st' \<or> step a st = st"
    by blast
  from e(3) show ?thesis
  proof
    assume "step a st = drain st'"
    then show ?thesis
      using handler_phase_resolved_with [OF e(2), of q] e(1) by simp
  qed simp
qed

lemma exec_resolved_with:
  assumes "q < length (promises st)"
  shows "resolved_with (promises (exec as st) ! q) = resolved_with (promises st ! q)"
  using assms
proof (induction as arbitrary: st)
  case Nil
  show ?case by (simp add: exec_Nil)
next
  case (Cons a as)
  have "q < length (promises (step a st))"
    using Cons.prems step_promises_length [of st a] by simp
  from Cons.IH [OF this] show ?case
    using step_resolved_with [OF Cons.prems, of a] by (simp add: exec_Cons)
qed

lemma outcome_follows:
  assumes "q < length (promises st)" and "resolved_with (promises st ! q) = Some p"
  shows "outcome (exec as st) q = state (promises (exec as st) ! p)"
  using exec_resolved_with [OF assms(1), of as] assms(2) by (simp add: outcome_def)

lemma cache_plain_new_world: "cache_plain (new_world i c)"
  by (simp add: cache_plain_def new_world_def)

lemma cache_plain_cached:
  assumes "cache_plain st" and "cache st k = Some p"
  shows "p < length (promises st)" and "resolved_with (promises st ! p) = None"
  using assms unfolding cache_plain_def by blast+

lemma step_new_entry:
  assumes mt: "microtasks st = []" and none: "cache st k = None"
    and c: "cache (step a st) k = Some q"
  shows "q < length (promises (step a st)) \<and> resolved_with (promises (step a st) ! q) = None"
proof (cases "is_call a")
  case True
  show ?thesis
  proof (cases a)
    case (Call signal)
    have "cache (step a st) k = cache st k"
      using mt Call
      by (cases "signal_aborted signal st")
         (simp_all add: drain_cache run_aborted run_not_aborted)
    with c none show ?thesis by simp
  next
    case (MemoCall signal)
    show ?thesis
    proof (cases "signal_aborted signal st")
      case True
      with c none MemoCall mt show ?thesis
        by (simp add: drain_cache memoized_run_aborted)
    next
      case na: False
      show ?thesis
      proof (cases "cache st signal")
        case (Some p)
        with c none MemoCall mt na show ?thesis
          by (simp add: drain_cache memoized_run_hit)
      next
        case None
        note m = memoized_run_miss_effects [OF na None]
        have mt1: "microtasks (snd (memoized_run signal st)) = []"
          using m(5) mt by simp
        have s: "step a st = snd (memoized_run signal st)"
          using MemoCall by (simp add: drain_no_microtasks [OF mt1])
        have "k = signal"
        proof (rule ccontr)
          assume "k \<noteq> signal"
          then have "cache (snd (memoized_run signal st)) k = cache st k"
            by (simp add: memoized_run_miss [OF na None])
          with c none s show False by simp
        qed
        with c s m(2) have q: "q = length (promises st)" by simp
        show ?thesis
          unfolding s q
          by (simp add: memoized_run_miss [OF na None] nth_append)
      qed
    qed
  qed (use True in simp_all)
next
  case False
  from event_turn [OF False, of st] obtain st0 st' where
    e: "cache st0 = cache st" "handler_phase st0 st'" "step a st = drain st' \<or> step a st = st"
    by blast
  from e(3) have "cache st k = Some q"
  proof
    assume "step a st = drain st'"
    with c have "cache st' k = Some q"
      by (simp add: drain_cache split: if_splits)
    then show ?thesis
      using handler_phase_fields(1) [OF e(2)] e(1) by simp
  next
    assume "step a st = st"
    with c show ?thesis by simp
  qed
  with none show ?thesis by simp
qed

lemma cache_plain_step:
  assumes inv: "cache_inv st" and pl: "cache_plain st"
  shows "cache_plain (step a st)"
  unfolding cache_plain_def
proof (intro allI impI)
  fix k q
  assume c: "cache (step a st) k = Some q"
  note mt = cache_inv_microtasks [OF inv]
  from step_cache [OF mt c]
  show "q < length (promises (step a st)) \<and> resolved_with (promises (step a st) ! q) = None"
  proof
    assume old: "cache st k = Some q"
    note lt = cache_plain_cached(1) [OF pl old]
    have "q < length (promises (step a st))"
      using lt step_promises_length [of st a] by simp
    then show ?thesis
      using step_resolved_with [OF lt, of a] cache_plain_cached(2) [OF pl old] by simp
  next
    assume "cache st k = None"
    from step_new_entry [OF mt this c] show ?thesis .
  qed
qed

lemma reachable_invariants:
  "cache_inv (exec as (new_world i c)) \<and> cache_plain (exec as (new_world i c))"
proof -
  have "cache_inv (exec as st) \<and> cache_plain (exec as st)"
    if "cache_inv st" and "cache_plain st" for st
    using that
  proof (induction as arbitrary: st)
    case Nil
    then show ?case by (simp add: exec_Nil)
  next
    case (Cons a as)
    from Cons.IH [OF cache_inv_step [OF Cons.prems(1), of a] cache_plain_step [OF Cons.prems, of a]]
    show ?case by (simp add: exec_Cons)
  qed
  from this [OF cache_inv_new_world cache_plain_new_world] show ?thesis .
qed

lemma outcome_plain:
  assumes "q < length (promises st)" and "resolved_with (promises st ! q) = None"
  shows "outcome (exec as st) q = state (promises (exec as st) ! q)"
  using exec_resolved_with [OF assms(1), of as] assms(2) by (simp add: outcome_def)

lemma rejected_entry_evicted:
  assumes inv: "cache_inv st" and c: "cache st k = Some p"
    and r: "state (promises (step a st) ! p) = Rejected r"
  shows "cache (step a st) k = None"
proof (rule ccontr)
  assume "cache (step a st) k \<noteq> None"
  then obtain q where q: "cache (step a st) k = Some q" by blast
  from step_cache [OF cache_inv_microtasks [OF inv] q] c have "q = p" by simp
  with q have "cache (step a st) k = Some p" by simp
  from cache_inv_cached(2) [OF cache_inv_step [OF inv, of a] this, of r] r
  show False by simp
qed

lemma fulfilled_entry_step:
  assumes inv: "cache_inv st" and c: "cache st k = Some p"
    and f: "state (promises st ! p) = Fulfilled"
  shows "cache (step a st) k = Some p \<and> state (promises (step a st) ! p) = Fulfilled"
proof
  note lt = cache_inv_cached(1) [OF inv c]
  note mt = cache_inv_microtasks [OF inv]
  show "state (promises (step a st) ! p) = Fulfilled"
    using step_settled [OF lt, of a] f by simp
  show "cache (step a st) k = Some p"
  proof (cases "is_call a")
    case True
    show ?thesis
    proof (cases a)
      case (Call signal)
      then show ?thesis
        using c mt
        by (cases "signal_aborted signal st")
           (simp_all add: drain_cache run_aborted run_not_aborted)
    next
      case (MemoCall signal)
      have "cache (snd (memoized_run signal st)) k = Some p \<and>
            microtasks (snd (memoized_run signal st)) = []"
        using c mt
        by (cases "signal_aborted signal st"; cases "cache st signal")
           (auto simp: memoized_run_aborted memoized_run_hit memoized_run_miss run_not_aborted)
      then show ?thesis
        using MemoCall by (simp add: drain_cache)
    qed (use True in simp_all)
  next
    case False
    from event_turn [OF False, of st] obtain st0 st' where
      e: "promises st0 = promises st" "cache st0 = cache st" "microtasks st0 = microtasks st"
         "handler_phase st0 st'" "step a st = drain st' \<or> step a st = st"
      by blast
    from e(5) show ?thesis
    proof
      assume d: "step a st = drain st'"
      have "CacheDelete k \<notin> set (microtasks st')"
      proof
        assume "CacheDelete k \<in> set (microtasks st')"
        then obtain q' r where q': "state (promises st ! q') = Pending"
          "state (promises st' ! q') = Rejected r"
          "CacheDelete k \<in> set (on_rejected (promises st ! q'))"
          using handler_phase_microtasks [OF e(4), of "CacheDelete k"] e(1,3) mt by auto
        have "q' < length (promises st)"
          using handler_phase_changed [OF e(4), of q'] q'(1,2) e(1) by simp
        from cache_inv_reaction [OF inv this q'(1,3)] c have "q' = p" by simp
        with q'(1) f show False by simp
      qed
      then show ?thesis
        using d c handler_phase_fields(1) [OF e(4)] e(2) by (simp add: drain_cache)
    next
      assume "step a st = st"
      with c show ?thesis by simp
    qed
  qed
qed

lemma fulfilled_entry_exec:
  assumes "cache_inv st" and "cache st k = Some p" and "state (promises st ! p) = Fulfilled"
  shows "cache (exec as st) k = Some p \<and> state (promises (exec as st) ! p) = Fulfilled"
  using assms
proof (induction as arbitrary: st)
  case Nil
  then show ?case by (simp add: exec_Nil)
next
  case (Cons a as)
  from fulfilled_entry_step [OF Cons.prems, of a]
  have 1: "cache (step a st) k = Some p" and 2: "state (promises (step a st) ! p) = Fulfilled"
    by simp_all
  from Cons.IH [OF cache_inv_step [OF Cons.prems(1), of a] 1 2]
  show ?case by (simp add: exec_Cons)
qed

section \<open>Evaluation\<close>

lemmas model_defs =
  run_def memoized_run_def new_promise_def new_world_def spawn_def on_childProcess_def on_def
  signal_aborted_def child_event_def emit_def drain_def resolve_def reject_def settle_def
  cleanup_def kill_def removeAllListeners_def addEventListener_def promise_catch_def
  abort_def abort_listener_def exec_def async_return_def outcome_def

section \<open>The claims\<close>

subsection \<open>C1: runAll\<close>

text \<open>
  C1 says that \<open>runAll\<close> invokes \<open>run\<close> on every registered process, and rejects when
  one of them fails. The body of \<open>runAll\<close> is empty. On a manager of three processes
  whose second has the command \<open>invalid-command\<close>, as in the test "should reject if at
  least one process terminates with an error", the returned promise is fulfilled and no
  child has been spawned.
\<close>

theorem runAll_failing_process:
  "(let (p, st) = runAll None
          \<lparr>processes =
             [\<lparr>pid = 1, command = ''echo 1'', childProcess = None, cache = Map.empty\<rparr>,
              \<lparr>pid = 2, command = ''invalid-command'', childProcess = None, cache = Map.empty\<rparr>,
              \<lparr>pid = 3, command = ''echo 3'', childProcess = None, cache = Map.empty\<rparr>]\<rparr>
          (new_world 0 [])
    in state (promises st ! p) = Fulfilled \<and> children st = [])"
  by (simp add: runAll_def new_promise_def new_world_def)

text \<open>The same on every manager, signal and heap: one fulfilled promise, nothing else.\<close>

theorem runAll_runs_nothing:
  "runAll signal m st =
     (length (promises st),
      st\<lparr>promises := promises st @ [\<lparr>state = Fulfilled, on_rejected = [], resolved_with = None\<rparr>]\<rparr>)"
  by (simp add: runAll_def new_promise_def)

subsection \<open>C2: cleanup on every path\<close>

text \<open>
  C2 says that on every path the listeners of the child are removed and the child is killed
  by the time the promise of \<open>run\<close> settles. The \<open>error\<close> listener and the
  non-zero branches of the \<open>exit\<close> and \<open>close\<close> listeners reject without calling
  \<open>cleanup\<close>: after a spawn error, and after a child that exits with code 1, the promise
  is rejected while the three listeners are still registered and no kill has been issued.
\<close>

theorem run_reject_paths_skip_cleanup:
  "(let (p, st1) = run None (new_world 2 ''invalid-command'');
        st2 = child_event 0 (EvError ''spawn invalid-command ENOENT'') st1
    in state (promises st2 ! p) = Rejected (Error ''spawn invalid-command ENOENT'') \<and>
       listeners (children st2 ! 0) =
         [(OnError, ErrorCb p), (OnExit, ExitCb p), (OnClose, CloseCb p)] \<and>
       kills (children st2 ! 0) = 0) \<and>
   (let (p, st1) = run None (new_world 1 ''false'');
        st2 = child_event 0 (EvExit (Some 1) None) st1;
        st3 = child_event 0 (EvClose (Some 1)) st2
    in state (promises st3 ! p) = Rejected Null \<and>
       listeners (children st3 ! 0) =
         [(OnError, ErrorCb p), (OnExit, ExitCb p), (OnClose, CloseCb p)] \<and>
       kills (children st3 ! 0) = 0)"
  by (simp add: run_def new_promise_def new_world_def spawn_def on_childProcess_def on_def
        signal_aborted_def child_event_def emit_def drain_def reject_def settle_def)

subsection \<open>C3: concurrent calls of run on one instance\<close>

text \<open>
  C3 says that each of two concurrent calls of \<open>run\<close> on one instance has its own child
  and listeners, and that the cleanup of one never operates on the child of the other.
  The closure \<open>cleanup\<close> reads the field \<open>_childProcess\<close>, which the second call has
  overwritten: when the child of the first call exits with code 0, the listeners of the
  second child are removed and the second child is killed, while the first child keeps
  its listeners and is not killed. The promise of the second call stays pending when its
  killed child then exits.
\<close>

theorem concurrent_cleanup_hits_other_child:
  "(let (p1, st1) = run None (new_world 1 ''sleep 5'');
        (p2, st2) = run None st1;
        st3 = child_event 0 (EvExit (Some 0) None) st2;
        st4 = child_event 1 (EvExit None (Some ''SIGTERM'')) st3
    in childProcess st2 = Some 1 \<and>
       listeners (children st2 ! 1) =
         [(OnError, ErrorCb p2), (OnExit, ExitCb p2), (OnClose, CloseCb p2)] \<and>
       state (promises st3 ! p1) = Fulfilled \<and>
       listeners (children st3 ! 0) =
         [(OnError, ErrorCb p1), (OnExit, ExitCb p1), (OnClose, CloseCb p1)] \<and>
       kills (children st3 ! 0) = 0 \<and>
       listeners (children st3 ! 1) = [] \<and>
       kills (children st3 ! 1) = 1 \<and>
       state (promises st4 ! p2) = Pending)"
  by (simp add: run_def new_promise_def new_world_def spawn_def on_childProcess_def on_def
        signal_aborted_def child_event_def emit_def drain_def resolve_def reject_def settle_def
        cleanup_def kill_def removeAllListeners_def addEventListener_def abort_def
        abort_listener_def)

subsection \<open>C4: the error of a non-zero exit\<close>

text \<open>
  C4 says that a non-zero exit rejects with an error that identifies the exit status. The
  message of the \<open>close\<close> listener is a template literal in which the dollar sign and
  the brace are separated by a space, so nothing is interpolated: exit codes 1 and 2 give
  the same message. The \<open>exit\<close> listener rejects with its \<open>signal\<close> argument, which
  is \<open>null\<close> for a child that exited by itself, whatever the code.
\<close>

theorem nonzero_exit_status_lost:
  "(let (p, st1) = run None (new_world 1 ''false'');
        st2 = child_event 0 (EvClose (Some 1)) st1
    in state (promises st2 ! p) = Rejected (Error ''Process exited with code $ {code}'')) \<and>
   (let (p, st1) = run None (new_world 1 ''false'');
        st2 = child_event 0 (EvClose (Some 2)) st1
    in state (promises st2 ! p) = Rejected (Error ''Process exited with code $ {code}'')) \<and>
   (let (p, st1) = run None (new_world 1 ''false'');
        st2 = child_event 0 (EvExit (Some 1) None) st1
    in state (promises st2 ! p) = Rejected Null) \<and>
   (let (p, st1) = run None (new_world 1 ''false'');
        st2 = child_event 0 (EvExit (Some 2) None) st1
    in state (promises st2 ! p) = Rejected Null)"
  by (simp add: run_def new_promise_def new_world_def spawn_def on_childProcess_def on_def
        signal_aborted_def child_event_def emit_def drain_def reject_def settle_def)

subsection \<open>C5: a signal aborted before the call\<close>

text \<open>
  C5: with a signal that is already aborted, \<open>run\<close> and the memoized \<open>run\<close> return a
  promise that is rejected on return, and change nothing else: no child is spawned, no
  listener is registered, and the cache is neither consulted nor written.
\<close>

theorem aborted_before_start:
  assumes "aborted st s"
  shows "run (Some s) st =
           (length (promises st),
            st\<lparr>promises := promises st @
              [\<lparr>state = Rejected (Error ''Aborted before execution''), on_rejected = [], resolved_with = None\<rparr>]\<rparr>) \<and>
         memoized_run (Some s) st =
           (length (promises st),
            st\<lparr>promises := promises st @
              [\<lparr>state = Rejected (Error ''Signal already aborted''), on_rejected = [], resolved_with = None\<rparr>]\<rparr>)"
  using assms by (simp add: run_aborted memoized_run_aborted signal_aborted_def)

text \<open>C5 on a new process whose signal 7 has been aborted.\<close>

theorem aborted_before_start_witness:
  "aborted (abort 7 (new_world 1 ''sleep 5'')) 7 \<and>
   (let st = abort 7 (new_world 1 ''sleep 5'') in
      state (promises (snd (run (Some 7) st)) ! fst (run (Some 7) st)) =
        Rejected (Error ''Aborted before execution'') \<and>
      children (snd (run (Some 7) st)) = [] \<and>
      abort_listeners (snd (run (Some 7) st)) 7 = [] \<and>
      state (promises (snd (memoized_run (Some 7) st)) ! fst (memoized_run (Some 7) st)) =
        Rejected (Error ''Signal already aborted'') \<and>
      children (snd (memoized_run (Some 7) st)) = [] \<and>
      abort_listeners (snd (memoized_run (Some 7) st)) 7 = [] \<and>
      cache (snd (memoized_run (Some 7) st)) = cache st)"
proof -
  have a: "aborted (abort 7 (new_world 1 ''sleep 5'')) 7"
    by (simp add: abort_def new_world_def drain_def)
  have e: "abort_listeners (abort 7 (new_world 1 ''sleep 5'')) 7 = []"
          "children (abort 7 (new_world 1 ''sleep 5'')) = []"
          "promises (abort 7 (new_world 1 ''sleep 5'')) = []"
    by (simp_all add: abort_def new_world_def drain_def)
  show ?thesis
    using a aborted_before_start [OF a] by (simp add: Let_def e)
qed

subsection \<open>C6: abort while the child runs\<close>

text \<open>
  C6 says that when the signal of a call of \<open>run\<close> fires while its child runs, the call
  is rejected with an abort error and its child is killed. After a later call of \<open>run\<close>
  on the same instance the \<open>abort\<close> listener of the first call kills the child of the
  later call: the first promise is rejected with the abort error, but its own child is
  never killed and keeps its listeners.
\<close>

theorem abort_kills_other_child:
  "(let (p1, st1) = run (Some 0) (new_world 1 ''sleep 5'');
        (p2, st2) = run None st1;
        st3 = abort 0 st2
    in state (promises st2 ! p1) = Pending \<and>
       state (promises st3 ! p1) = Rejected (Error ''AbortSignal triggered'') \<and>
       kills (children st3 ! 0) = 0 \<and>
       listeners (children st3 ! 0) =
         [(OnError, ErrorCb p1), (OnExit, ExitCb p1), (OnClose, CloseCb p1)] \<and>
       kills (children st3 ! 1) = 1 \<and>
       listeners (children st3 ! 1) = [] \<and>
       state (promises st3 ! p2) = Pending)"
  by (simp add: run_def new_promise_def new_world_def spawn_def on_childProcess_def on_def
        signal_aborted_def child_event_def emit_def drain_def resolve_def reject_def settle_def
        cleanup_def kill_def removeAllListeners_def addEventListener_def abort_def
        abort_listener_def)

subsection \<open>C7: joining a cache entry\<close>

text \<open>
  C7 says that every memoized call whose signal has a cache entry returns the outcome of
  that entry. The test of \<open>signal.aborted\<close> comes first: once the signal of a fulfilled
  entry has been aborted, the call returns a rejected promise, while the entry and the
  promise of the first call are fulfilled.
\<close>

theorem memoized_run_aborted_entry_counterexample:
  "(let (o0, st1) = memoized_run (Some 0) (new_world 1 ''true'');
        st2 = child_event 0 (EvExit (Some 0) None) st1;
        st3 = abort 0 st2;
        (o1, st4) = memoized_run (Some 0) st3
    in cache st3 (Some 0) = Some 0 \<and>
       state (promises st3 ! 0) = Fulfilled \<and>
       outcome st3 o0 = Fulfilled \<and>
       length (children st4) = 1 \<and>
       outcome st4 o1 = Rejected (Error ''Signal already aborted''))"
  by (simp add: model_defs)

text \<open>
  C7 as amended, with the condition that the signal is not aborted at call time. In every
  state reached from a new process by calls, child events and aborts: a memoized call
  whose signal is not aborted and has a cache entry spawns nothing and leaves the cache as
  it is, and the promise it returns has, from then on, the outcome of the promise of that
  entry; a memoized call whose signal is not aborted and has no entry spawns one child and
  stores the promise of that run under the signal, and the promise it returns has the
  outcome of the stored one; so any number of memoized calls with the same signal in a row
  spawn one child between them.
\<close>

theorem memoized_run_joins_entry:
  assumes reach: "st = exec as0 (new_world i c)"
  shows "(\<not> signal_aborted signal st \<and> cache st signal = Some p \<longrightarrow>
            children (snd (memoized_run signal st)) = children st \<and>
            cache (snd (memoized_run signal st)) = cache st \<and>
            outcome (exec as (snd (memoized_run signal st))) (fst (memoized_run signal st)) =
              outcome (exec as (snd (memoized_run signal st))) p) \<and>
         (\<not> signal_aborted signal st \<and> cache st signal = None \<longrightarrow>
            length (children (snd (memoized_run signal st))) = Suc (length (children st)) \<and>
            cache (snd (memoized_run signal st)) signal = Some (length (promises st)) \<and>
            outcome (exec as (snd (memoized_run signal st))) (fst (memoized_run signal st)) =
              outcome (exec as (snd (memoized_run signal st))) (length (promises st)) \<and>
            length (children (exec (replicate (Suc n) (MemoCall signal)) st)) =
              Suc (length (children st)) \<and>
            cache (exec (replicate (Suc n) (MemoCall signal)) st) signal =
              Some (length (promises st)))"
proof (intro conjI impI)
  have inv: "cache_inv st" and pl: "cache_plain st"
    using reachable_invariants [of as0 i c] by (simp_all add: reach)
  let ?st' = "snd (memoized_run signal st)"
  {
    assume a: "\<not> signal_aborted signal st \<and> cache st signal = Some p"
    then have na: "\<not> signal_aborted signal st" and hit: "cache st signal = Some p"
      by simp_all
    note h = memoized_run_hit_effects [OF na hit]
    show "children ?st' = children st" by (rule h(3))
    show "cache ?st' = cache st" by (rule h(2))
    note lt = cache_plain_cached(1) [OF pl hit]
    have o: "fst (memoized_run signal st) < length (promises ?st')"
      using h(1,9) by simp
    have r: "resolved_with (promises ?st' ! fst (memoized_run signal st)) = Some p"
      using h(1,8) by simp
    have lt': "p < length (promises ?st')"
      using lt h(9) by simp
    have "promises ?st' ! p = promises st ! p"
      using lt by (simp add: memoized_run_old_promise)
    then have r': "resolved_with (promises ?st' ! p) = None"
      using cache_plain_cached(2) [OF pl hit] by simp
    show "outcome (exec as ?st') (fst (memoized_run signal st)) = outcome (exec as ?st') p"
      using outcome_follows [OF o r, of as] outcome_plain [OF lt' r', of as] by simp
  }
  {
    assume a: "\<not> signal_aborted signal st \<and> cache st signal = None"
    then have na: "\<not> signal_aborted signal st" and miss: "cache st signal = None"
      by simp_all
    note m = memoized_run_miss_effects [OF na miss]
    show "length (children ?st') = Suc (length (children st))" by (rule m(3))
    show "cache ?st' signal = Some (length (promises st))" by (rule m(2))
    have o: "fst (memoized_run signal st) < length (promises ?st')"
      using m(1,8) by simp
    have r: "resolved_with (promises ?st' ! fst (memoized_run signal st)) =
               Some (length (promises st))"
      using m(1,7) by simp
    have lt': "length (promises st) < length (promises ?st')"
      using m(8) by simp
    have r': "resolved_with (promises ?st' ! length (promises st)) = None"
      by (simp add: memoized_run_miss [OF na miss] nth_append)
    show "outcome (exec as ?st') (fst (memoized_run signal st)) =
            outcome (exec as ?st') (length (promises st))"
      using outcome_follows [OF o r, of as] outcome_plain [OF lt' r', of as] by simp
    from repeated_memoized_calls [OF na miss cache_inv_microtasks [OF inv], of n]
    show "length (children (exec (replicate (Suc n) (MemoCall signal)) st)) =
            Suc (length (children st))"
      and "cache (exec (replicate (Suc n) (MemoCall signal)) st) signal =
            Some (length (promises st))"
      by simp_all
  }
qed

text \<open>
  The amended C7 on a new process: a first call, a call that joins it while the child
  runs, the exit of the child with code 0, and three calls in a row.
\<close>

theorem memoized_run_joins_entry_witness:
  "\<not> signal_aborted (Some 0) (new_world 1 ''true'') \<and>
   cache (new_world 1 ''true'') (Some 0) = None \<and>
   length (children (snd (memoized_run (Some 0) (new_world 1 ''true'')))) = 1 \<and>
   length (children (exec (replicate 3 (MemoCall (Some 0))) (new_world 1 ''true''))) = 1 \<and>
   \<not> signal_aborted (Some 0) (exec [MemoCall (Some 0)] (new_world 1 ''true'')) \<and>
   cache (exec [MemoCall (Some 0)] (new_world 1 ''true'')) (Some 0) = Some 0 \<and>
   children (snd (memoized_run (Some 0) (exec [MemoCall (Some 0)] (new_world 1 ''true'')))) =
     children (exec [MemoCall (Some 0)] (new_world 1 ''true'')) \<and>
   outcome (exec [ChildEvent 0 (EvExit (Some 0) None)]
              (snd (memoized_run (Some 0) (exec [MemoCall (Some 0)] (new_world 1 ''true'')))))
      (fst (memoized_run (Some 0) (exec [MemoCall (Some 0)] (new_world 1 ''true'')))) =
     Fulfilled"
proof -
  let ?w = "new_world 1 ''true''"
  let ?st = "exec [MemoCall (Some 0)] ?w"
  let ?st' = "snd (memoized_run (Some 0) ?st)"
  let ?as = "[ChildEvent 0 (EvExit (Some 0) None)]"
  have w: "?w = exec [] ?w" by (simp add: exec_def)
  have h1: "\<not> signal_aborted (Some 0) ?w" by (simp add: signal_aborted_def new_world_def)
  have h2: "cache ?w (Some 0) = None" by (simp add: new_world_def)
  have h4: "\<not> signal_aborted (Some 0) ?st" by (simp add: model_defs)
  have h5: "cache ?st (Some 0) = Some 0" by (simp add: model_defs)
  have l: "length (children ?w) = 0" by (simp add: new_world_def)
  have f: "outcome (exec ?as ?st') 0 = Fulfilled" by (simp add: model_defs)
  from memoized_run_joins_entry [OF w, of "Some 0" _ _ 2] h1 h2 l
  have c1: "length (children (snd (memoized_run (Some 0) ?w))) = 1"
    and c2: "length (children (exec (replicate (Suc 2) (MemoCall (Some 0))) ?w)) = 1"
    by simp_all
  from memoized_run_joins_entry [OF refl, of "Some 0" "[MemoCall (Some 0)]" 1 "''true''" 0 ?as]
    h4 h5
  have c3: "children ?st' = children ?st"
    and c4: "outcome (exec ?as ?st') (fst (memoized_run (Some 0) ?st)) = outcome (exec ?as ?st') 0"
    by blast+
  from c4 f have c5: "outcome (exec ?as ?st') (fst (memoized_run (Some 0) ?st)) = Fulfilled"
    by simp
  from c2 have c2': "length (children (exec (replicate 3 (MemoCall (Some 0))) ?w)) = 1"
    by (simp add: numeral_3_eq_3)
  from h1 h2 c1 c2' h4 h5 c3 c5 show ?thesis
    by (intro conjI)
qed

subsection \<open>C8: failures are evicted, successes stay\<close>

text \<open>
  C8 says that after a failure of any kind a later call with the same signal starts a
  fresh invocation, and that the entry of a success is reused. After a failure by abort
  the entry is evicted, but the signal stays aborted: the later call is rejected at once
  and spawns nothing. In the same way the entry of a success is still in the cache after
  its signal has been aborted, but a later call is rejected and does not reuse it.
\<close>

theorem failure_by_abort_counterexample:
  "(let (o0, st1) = memoized_run (Some 0) (new_world 1 ''sleep 5'');
        st2 = abort 0 st1;
        (o1, st3) = memoized_run (Some 0) st2
    in outcome st2 o0 = Rejected (Error ''AbortSignal triggered'') \<and>
       cache st2 (Some 0) = None \<and>
       length (children st2) = 1 \<and>
       length (children st3) = 1 \<and>
       outcome st3 o1 = Rejected (Error ''Signal already aborted'')) \<and>
   (let (o0, st1) = memoized_run (Some 0) (new_world 1 ''true'');
        st2 = child_event 0 (EvClose (Some 0)) st1;
        st3 = abort 0 st2;
        (o1, st4) = memoized_run (Some 0) st3
    in outcome st3 o0 = Fulfilled \<and>
       cache st3 (Some 0) = Some 0 \<and>
       outcome st4 o1 = Rejected (Error ''Signal already aborted''))"
  by (simp add: model_defs)

text \<open>
  C8 as amended, with the condition that the signal of the later call is not aborted. In
  every state reached from a new process by calls, child events and aborts: when the
  promise of a cache entry is rejected, whatever the failure, the entry is evicted in the
  turn that settles it, so a later memoized call with the same signal, if that signal is
  not aborted, spawns a new child and stores a new promise; when the promise of an entry
  is fulfilled, the entry stays through all later turns, and a memoized call with that
  signal, if it is not aborted, spawns nothing and returns a promise that is fulfilled.
\<close>

theorem failure_evicts_success_stays:
  assumes reach: "st = exec as (new_world i c)" and entry: "cache st k = Some p"
  shows "(state (promises (step a st) ! p) = Rejected r \<longrightarrow>
            cache (step a st) k = None \<and>
            (\<not> signal_aborted k (step a st) \<longrightarrow>
               length (children (snd (memoized_run k (step a st)))) =
                 Suc (length (children (step a st))) \<and>
               cache (snd (memoized_run k (step a st))) k =
                 Some (length (promises (step a st))) \<and>
               p < length (promises (step a st)))) \<and>
         (state (promises st ! p) = Fulfilled \<longrightarrow>
            cache (exec as' st) k = Some p \<and>
            state (promises (exec as' st) ! p) = Fulfilled \<and>
            (\<not> signal_aborted k (exec as' st) \<longrightarrow>
               children (snd (memoized_run k (exec as' st))) = children (exec as' st) \<and>
               outcome (snd (memoized_run k (exec as' st)))
                 (fst (memoized_run k (exec as' st))) = Fulfilled))"
proof (intro conjI impI)
  have inv: "cache_inv st"
    unfolding reach by (rule cache_inv_exec [OF cache_inv_new_world])
  note lt = cache_inv_cached(1) [OF inv entry]
  {
    assume r: "state (promises (step a st) ! p) = Rejected r"
    show none: "cache (step a st) k = None"
      by (rule rejected_entry_evicted [OF inv entry r])
    show "p < length (promises (step a st))"
      using lt step_promises_length [of st a] by simp
    assume na: "\<not> signal_aborted k (step a st)"
    show "length (children (snd (memoized_run k (step a st)))) =
                 Suc (length (children (step a st)))"
      by (rule memoized_run_miss_effects(3) [OF na none])
    show "cache (snd (memoized_run k (step a st))) k = Some (length (promises (step a st)))"
      by (rule memoized_run_miss_effects(2) [OF na none])
  }
  {
    assume f: "state (promises st ! p) = Fulfilled"
    let ?st2 = "exec as' st"
    from fulfilled_entry_exec [OF inv entry f, of as']
    show c': "cache ?st2 k = Some p"
      and f': "state (promises ?st2 ! p) = Fulfilled" by simp_all
    assume na: "\<not> signal_aborted k ?st2"
    note h = memoized_run_hit_effects [OF na c']
    show "children (snd (memoized_run k ?st2)) = children ?st2" by (rule h(3))
    have "cache_inv ?st2" by (rule cache_inv_exec [OF inv])
    note lt2 = cache_inv_cached(1) [OF this c']
    have "promises (snd (memoized_run k ?st2)) ! p = promises ?st2 ! p"
      using lt2 by (simp add: memoized_run_old_promise)
    then show "outcome (snd (memoized_run k ?st2)) (fst (memoized_run k ?st2)) = Fulfilled"
      using h(1,8) f' by (simp add: outcome_def)
  }
qed

text \<open>
  The amended C8 on a child that exits with code 1, and on one that exits with code 0
  and is followed by three more turns.
\<close>

theorem failure_evicts_success_stays_witness:
  "cache (exec [MemoCall (Some 0)] (new_world 1 ''false'')) (Some 0) = Some 0 \<and>
   state (promises (step (ChildEvent 0 (EvExit (Some 1) None))
                      (exec [MemoCall (Some 0)] (new_world 1 ''false''))) ! 0) = Rejected Null \<and>
   cache (step (ChildEvent 0 (EvExit (Some 1) None))
            (exec [MemoCall (Some 0)] (new_world 1 ''false''))) (Some 0) = None \<and>
   \<not> signal_aborted (Some 0) (step (ChildEvent 0 (EvExit (Some 1) None))
                                (exec [MemoCall (Some 0)] (new_world 1 ''false''))) \<and>
   length (children (snd (memoized_run (Some 0)
      (step (ChildEvent 0 (EvExit (Some 1) None))
         (exec [MemoCall (Some 0)] (new_world 1 ''false'')))))) = 2 \<and>
   cache (exec [MemoCall (Some 0), ChildEvent 0 (EvExit (Some 0) None)] (new_world 1 ''true''))
     (Some 0) = Some 0 \<and>
   state (promises (exec [MemoCall (Some 0), ChildEvent 0 (EvExit (Some 0) None)]
                      (new_world 1 ''true'')) ! 0) = Fulfilled \<and>
   cache (exec [AbortFired 3, ChildEvent 0 (EvClose (Some 0)), MemoCall None]
            (exec [MemoCall (Some 0), ChildEvent 0 (EvExit (Some 0) None)] (new_world 1 ''true'')))
     (Some 0) = Some 0 \<and>
   \<not> signal_aborted (Some 0)
      (exec [AbortFired 3, ChildEvent 0 (EvClose (Some 0)), MemoCall None]
         (exec [MemoCall (Some 0), ChildEvent 0 (EvExit (Some 0) None)] (new_world 1 ''true''))) \<and>
   outcome
      (snd (memoized_run (Some 0)
         (exec [AbortFired 3, ChildEvent 0 (EvClose (Some 0)), MemoCall None]
            (exec [MemoCall (Some 0), ChildEvent 0 (EvExit (Some 0) None)]
               (new_world 1 ''true'')))))
      (fst (memoized_run (Some 0)
         (exec [AbortFired 3, ChildEvent 0 (EvClose (Some 0)), MemoCall None]
            (exec [MemoCall (Some 0), ChildEvent 0 (EvExit (Some 0) None)]
               (new_world 1 ''true''))))) = Fulfilled"
proof -
  let ?st = "exec [MemoCall (Some 0)] (new_world 1 ''false'')"
  let ?a = "ChildEvent 0 (EvExit (Some 1) None)"
  let ?st' = "exec [MemoCall (Some 0), ChildEvent 0 (EvExit (Some 0) None)] (new_world 1 ''true'')"
  let ?as' = "[AbortFired 3, ChildEvent 0 (EvClose (Some 0)), MemoCall None]"
  have h1: "cache ?st (Some 0) = Some 0" by (simp add: model_defs)
  have h2: "state (promises (step ?a ?st) ! 0) = Rejected Null" by (simp add: model_defs)
  have h3: "cache ?st' (Some 0) = Some 0" by (simp add: model_defs)
  have h4: "state (promises ?st' ! 0) = Fulfilled" by (simp add: model_defs)
  have h5: "\<not> signal_aborted (Some 0) (step ?a ?st)" by (simp add: model_defs)
  have h6: "\<not> signal_aborted (Some 0) (exec ?as' ?st')" by (simp add: model_defs)
  have l: "length (children (step ?a ?st)) = 1" by (simp add: model_defs)
  from failure_evicts_success_stays [OF refl h1, of ?a Null] h2 h5
  have c1: "cache (step ?a ?st) (Some 0) = None"
    and c2: "length (children (snd (memoized_run (Some 0) (step ?a ?st)))) =
             Suc (length (children (step ?a ?st)))"
    by blast+
  from failure_evicts_success_stays [OF refl h3, of _ _ ?as'] h4 h6
  have c3: "cache (exec ?as' ?st') (Some 0) = Some 0"
    and c4: "outcome (snd (memoized_run (Some 0) (exec ?as' ?st')))
               (fst (memoized_run (Some 0) (exec ?as' ?st'))) = Fulfilled"
    by blast+
  from c2 l have c5: "length (children (snd (memoized_run (Some 0) (step ?a ?st)))) = 2"
    by simp
  from h1 h2 c1 h5 c5 h3 h4 c3 h6 c4 show ?thesis
    by (intro conjI)
qed

subsection \<open>C9: addProcess, getProcess, removeProcess\<close>

text \<open>
  C9 says that after \<open>addProcess(p)\<close> the call \<open>getProcess(p.id)\<close> returns \<open>p\<close>.
  \<open>addProcess\<close> appends without a check of the id and \<open>getProcess\<close> returns the first
  match: a process registered earlier under the same id is returned instead.
\<close>

theorem add_get_shadowed_counterexample:
  "getProcess 1 (addProcess \<lparr>pid = 1, command = ''sleep 2'', childProcess = None, cache = Map.empty\<rparr>
      \<lparr>processes = [\<lparr>pid = 1, command = ''sleep 1'', childProcess = None, cache = Map.empty\<rparr>]\<rparr>)
   \<noteq> Some \<lparr>pid = 1, command = ''sleep 2'', childProcess = None, cache = Map.empty\<rparr>"
  by (simp add: getProcess_def addProcess_def)

text \<open>
  C9 as amended: after \<open>addProcess(p)\<close>, \<open>getProcess(p.id)\<close> returns the process
  that was registered first under that id, which is \<open>p\<close> when there was none; after
  \<open>removeProcess(i)\<close>, \<open>getProcess(i)\<close> returns \<open>undefined\<close>.
\<close>

theorem add_get_remove_roundtrip:
  "getProcess (pid p) (addProcess p m) =
     (case getProcess (pid p) m of None \<Rightarrow> Some p | Some q \<Rightarrow> Some q) \<and>
   getProcess i (removeProcess i m) = None"
proof
  show "getProcess (pid p) (addProcess p m) =
     (case getProcess (pid p) m of None \<Rightarrow> Some p | Some q \<Rightarrow> Some q)"
    by (simp add: getProcess_def addProcess_def find_append split: option.splits)
  show "getProcess i (removeProcess i m) = None"
    by (simp add: getProcess_def removeProcess_def find_None_iff)
qed

text \<open>The amended C9 on a manager of one process, to which a second is added.\<close>

theorem add_get_remove_roundtrip_witness:
  "getProcess 2 (addProcess \<lparr>pid = 2, command = ''sleep 2'', childProcess = None, cache = Map.empty\<rparr>
      \<lparr>processes = [\<lparr>pid = 1, command = ''sleep 1'', childProcess = None, cache = Map.empty\<rparr>]\<rparr>)
     = Some \<lparr>pid = 2, command = ''sleep 2'', childProcess = None, cache = Map.empty\<rparr> \<and>
   getProcess 2 (removeProcess 2 (addProcess \<lparr>pid = 2, command = ''sleep 2'', childProcess = None, cache = Map.empty\<rparr>
      \<lparr>processes = [\<lparr>pid = 1, command = ''sleep 1'', childProcess = None, cache = Map.empty\<rparr>]\<rparr>)) = None"
proof -
  let ?p = "\<lparr>pid = 2, command = ''sleep 2'', childProcess = None, cache = Map.empty\<rparr>"
  let ?m = "\<lparr>processes = [\<lparr>pid = 1, command = ''sleep 1'', childProcess = None, cache = Map.empty\<rparr>]\<rparr>"
  have g: "getProcess 2 ?m = None" by (simp add: getProcess_def)
  show ?thesis
    using add_get_remove_roundtrip [of ?p ?m] add_get_remove_roundtrip [of ?p "addProcess ?p ?m" 2]
    by (simp add: g)
qed

subsection \<open>C10: the kill on the success path\<close>

text \<open>
  C10 says that a call of \<open>run\<close> that resolves has issued a kill against its child in
  the cleanup that precedes the resolution. After a later call of \<open>run\<close> on the same
  instance that kill goes to the child of the later call: when the first child closes
  with code 0 the first promise is fulfilled, its own child has not been killed, and the
  other child has.
\<close>

theorem success_kills_other_child:
  "(let (p1, st1) = run None (new_world 1 ''true'');
        (p2, st2) = run None st1;
        st3 = child_event 0 (EvClose (Some 0)) st2
    in state (promises st2 ! p1) = Pending \<and>
       state (promises st3 ! p1) = Fulfilled \<and>
       kills (children st3 ! 0) = 0 \<and>
       listeners (children st3 ! 0) =
         [(OnError, ErrorCb p1), (OnExit, ExitCb p1), (OnClose, CloseCb p1)] \<and>
       kills (children st3 ! 1) = 1 \<and>
       listeners (children st3 ! 1) = [])"
  by (simp add: run_def new_promise_def new_world_def spawn_def on_childProcess_def on_def
        signal_aborted_def child_event_def emit_def drain_def resolve_def reject_def settle_def
        cleanup_def kill_def removeAllListeners_def addEventListener_def abort_def
        abort_listener_def)

end
